theory Spec2Isabelle
  imports Complex_Main
begin

section \<open>Data model\<close>

text \<open>
  The simulator is one TypeScript function, \<open>runPrioritySimulation\<close>, which clones its
  argument with \<open>JSON.parse(JSON.stringify(...))\<close> and then mutates the clones in a
  \<open>while\<close> loop. Objects are modelled in an explicit store, because the loop works
  through references: \<open>readyQueue\<close> holds references to the objects of
  \<open>processes\<close>, and \<open>startTimes\<close> is an array object of its own.

  Numbers are modelled as \<open>int\<close>: the form handlers produce them with \<open>parseInt\<close>,
  and the caller rejects \<open>NaN\<close> before the simulation is called. The arithmetic of
  the loop (\<open>+ 1\<close>, \<open>- 1\<close>, differences) is exact on doubles as long as the values
  stay below \<open>2^53\<close>, which is assumed.
  The field \<open>id\<close> of the source is called \<open>proc_id\<close> here (and \<open>seg_id\<close> in a
  segment), and the fields of a segment carry the prefix \<open>seg_\<close>, since \<open>id\<close> and
  \<open>end\<close> are taken in Isabelle.
\<close>

type_synonym addr = nat

record Process =
  proc_id :: int
  pid :: string
  arrival :: int
  burst :: int
  priority :: int
  remaining :: int
  completionTime :: int
  turnaroundTime :: int
  waitingTime :: int
  startTimes :: addr  \<comment> \<open>reference to a \<open>number[]\<close> object\<close>

record GanttSegment =
  seg_pid :: string
  seg_start :: int
  seg_end :: int
  seg_id :: "int option"

text \<open>
  The store: \<open>Process\<close> objects and \<open>number[]\<close> objects, each kind with the number
  of objects allocated so far. Addresses below that number are allocated.
\<close>

record heap =
  objs :: "addr \<Rightarrow> Process"
  nobjs :: nat
  arrs :: "addr \<Rightarrow> int list"
  narrs :: nat

text \<open>The only exception the loop can raise: writing \<open>.end\<close> of \<open>undefined\<close>.\<close>

datatype error = TypeError

section \<open>The deep copy\<close>

text \<open>
  \<open>JSON.stringify\<close> reads the whole argument before \<open>JSON.parse\<close> allocates anything.
  The text it produces is modelled as the list of the records read, each with the
  contents of its \<open>startTimes\<close> array (the reference inside the record is not part of
  the text).
\<close>

definition JSON_stringify :: "heap \<Rightarrow> addr list \<Rightarrow> (Process \<times> int list) list" where
  "JSON_stringify h as = map (\<lambda>a. (objs h a, arrs h (startTimes (objs h a)))) as"

fun JSON_parse :: "heap \<Rightarrow> (Process \<times> int list) list \<Rightarrow> heap \<times> addr list" where
  "JSON_parse h [] = (h, [])"
| "JSON_parse h ((p, st) # js) =
     (let arr = narrs h;
          ob = nobjs h;
          h' = h\<lparr>objs := (objs h)(ob := p\<lparr>startTimes := arr\<rparr>), nobjs := Suc ob,
                 arrs := (arrs h)(arr := st), narrs := Suc arr\<rparr>;
          (h'', obs) = JSON_parse h' js
      in (h'', ob # obs))"

section \<open>The simulation loop\<close>

text \<open>The local variables of \<open>runPrioritySimulation\<close>, together with the store.\<close>

record sim = heap +
  processes :: "addr list"
  currentTime :: int
  ganttChart :: "GanttSegment list"
  idleTime :: int
  lastProcessId :: "string option"
  isIdle :: bool

text \<open>\<open>processes.some(p => p.remaining > 0)\<close>\<close>

definition some_remaining :: "sim \<Rightarrow> bool" where
  "some_remaining s = (\<exists>a \<in> set (processes s). remaining (objs s a) > 0)"

text \<open>\<open>processes.filter(p => p.arrival <= currentTime && p.remaining > 0)\<close>\<close>

definition readyQueue :: "sim \<Rightarrow> addr list" where
  "readyQueue s =
     filter (\<lambda>a. arrival (objs s a) \<le> currentTime s \<and> remaining (objs s a) > 0) (processes s)"

text \<open>The comparator passed to \<open>readyQueue.sort\<close>.\<close>

definition comparator :: "Process \<Rightarrow> Process \<Rightarrow> int" where
  "comparator a b =
     (if priority a \<noteq> priority b then priority a - priority b else arrival a - arrival b)"

text \<open>
  \<open>Array.prototype.sort\<close> is a stable sort (ECMAScript 2019). It is modelled as the
  stable insertion sort: an element goes in front of the first element that the
  comparator does not put before it.
\<close>

fun insert_by :: "('a \<Rightarrow> 'a \<Rightarrow> int) \<Rightarrow> 'a \<Rightarrow> 'a list \<Rightarrow> 'a list" where
  "insert_by c x [] = [x]"
| "insert_by c x (y # ys) = (if c x y \<le> 0 then x # y # ys else y # insert_by c x ys)"

definition array_sort :: "('a \<Rightarrow> 'a \<Rightarrow> int) \<Rightarrow> 'a list \<Rightarrow> 'a list" where
  "array_sort c xs = foldr (insert_by c) xs []"

text \<open>\<open>readyQueue[0]\<close> after the sort.\<close>

definition runningProcess :: "sim \<Rightarrow> addr" where
  "runningProcess s =
     hd (array_sort (\<lambda>a b. comparator (objs s a) (objs s b)) (readyQueue s))"

text \<open>\<open>ganttChart[ganttChart.length - 1].end = e\<close>; on an empty array this throws.\<close>

definition set_last_end :: "GanttSegment list \<Rightarrow> int \<Rightarrow> error + GanttSegment list" where
  "set_last_end g e =
     (if g = [] then Inl TypeError else Inr (butlast g @ [(last g)\<lparr>seg_end := e\<rparr>]))"

text \<open>The branch of the loop body taken when the ready queue is empty.\<close>

definition idle_tick :: "sim \<Rightarrow> error + sim" where
  "idle_tick s =
     (case (if \<not> isIdle s
            then Inr (s\<lparr>ganttChart := ganttChart s @
                          [\<lparr>seg_pid = ''IDLE'', seg_start = currentTime s,
                            seg_end = currentTime s + 1, seg_id = None\<rparr>],
                        isIdle := True\<rparr>)
            else (case set_last_end (ganttChart s) (currentTime s + 1) of
                    Inl e \<Rightarrow> Inl e
                  | Inr g \<Rightarrow> Inr (s\<lparr>ganttChart := g\<rparr>))) of
        Inl e \<Rightarrow> Inl e
      | Inr s1 \<Rightarrow> Inr (s1\<lparr>idleTime := idleTime s1 + 1,
                          currentTime := currentTime s1 + 1,
                          lastProcessId := None\<rparr>))"

text \<open>The rest of the loop body, for the selected process \<open>r\<close>.\<close>

definition run_tick :: "sim \<Rightarrow> addr \<Rightarrow> error + sim" where
  "run_tick s r =
     (case (if Some (pid (objs s r)) \<noteq> lastProcessId s
            then (let s1 = s\<lparr>ganttChart := ganttChart s @
                                [\<lparr>seg_pid = pid (objs s r), seg_start = currentTime s,
                                  seg_end = currentTime s + 1,
                                  seg_id = Some (proc_id (objs s r))\<rparr>],
                              isIdle := False\<rparr>;
                      st = startTimes (objs s1 r)
                  in Inr (if length (arrs s1 st) = 0
                          then s1\<lparr>arrs := (arrs s1)(st := arrs s1 st @ [currentTime s1])\<rparr>
                          else s1))
            else (case set_last_end (ganttChart s) (currentTime s + 1) of
                    Inl e \<Rightarrow> Inl e
                  | Inr g \<Rightarrow> Inr (s\<lparr>ganttChart := g\<rparr>))) of
        Inl e \<Rightarrow> Inl e
      | Inr s2 \<Rightarrow>
          (let s3 = s2\<lparr>objs := (objs s2)(r := (objs s2 r)\<lparr>remaining := remaining (objs s2 r) - 1\<rparr>),
                       currentTime := currentTime s2 + 1,
                       lastProcessId := Some (pid (objs s2 r))\<rparr>;
               p = objs s3 r
           in Inr (if remaining p = 0
                   then s3\<lparr>objs := (objs s3)(r := p\<lparr>completionTime := currentTime s3,
                                                      turnaroundTime := currentTime s3 - arrival p,
                                                      waitingTime := (currentTime s3 - arrival p) - burst p\<rparr>)\<rparr>
                   else s3)))"

text \<open>One iteration of the \<open>while\<close> body.\<close>

definition step :: "sim \<Rightarrow> error + sim" where
  "step s = (if length (readyQueue s) = 0 then idle_tick s else run_tick s (runningProcess s))"

text \<open>
  \<open>while (processes.some(p => p.remaining > 0)) { ... }\<close>. An exception ends the
  loop. The loop is total: \<open>work\<close> below decreases in every iteration.
\<close>

function loop :: "sim \<Rightarrow> error + sim" where
  "loop s =
     (if some_remaining s
      then (case step s of Inl e \<Rightarrow> Inl e | Inr s' \<Rightarrow> loop s')
      else Inr s)"
  by pat_completeness auto

text \<open>
  The termination measure: for every process that still has work, its remaining ticks
  plus the ticks until it arrives.
\<close>

definition work :: "sim \<Rightarrow> nat" where
  "work s = (\<Sum>a\<leftarrow>processes s.
       if remaining (objs s a) > 0
       then nat (remaining (objs s a)) + nat (arrival (objs s a) - currentTime s) else 0)"

lemma sum_list_strict:
  fixes f g :: "'a \<Rightarrow> nat"
  assumes "\<And>x. x \<in> set xs \<Longrightarrow> f x \<le> g x" and "\<exists>x \<in> set xs. f x < g x"
  shows "sum_list (map f xs) < sum_list (map g xs)"
  using assms
proof (induction xs)
  case Nil
  then show ?case by simp
next
  case (Cons x xs)
  have le: "sum_list (map f xs) \<le> sum_list (map g xs)"
    using Cons.prems(1) by (intro sum_list_mono) simp
  show ?case
  proof (cases "f x < g x")
    case True
    with le show ?thesis by simp
  next
    case False
    with Cons.prems have "\<exists>y \<in> set xs. f y < g y" by auto
    with Cons.IH Cons.prems(1) have "sum_list (map f xs) < sum_list (map g xs)" by simp
    moreover have "f x \<le> g x" using Cons.prems(1) by simp
    ultimately show ?thesis by simp
  qed
qed

lemma set_last_end_Inr:
  "set_last_end g e = Inr g' \<Longrightarrow> g \<noteq> [] \<and> g' = butlast g @ [(last g)\<lparr>seg_end := e\<rparr>]"
  by (auto simp: set_last_end_def split: if_splits)

lemma idle_tick_fields:
  assumes "idle_tick s = Inr s'"
  shows "objs s' = objs s" "arrs s' = arrs s" "processes s' = processes s"
    "currentTime s' = currentTime s + 1" "idleTime s' = idleTime s + 1"
    "lastProcessId s' = None" "nobjs s' = nobjs s" "narrs s' = narrs s"
  using assms by (auto simp: idle_tick_def split: if_splits sum.splits)

lemma run_tick_fields:
  assumes "run_tick s r = Inr s'"
  shows "processes s' = processes s"
    "currentTime s' = currentTime s + 1" "idleTime s' = idleTime s"
    "lastProcessId s' = Some (pid (objs s r))" "nobjs s' = nobjs s" "narrs s' = narrs s"
    "\<And>a. a \<noteq> r \<Longrightarrow> objs s' a = objs s a"
    "remaining (objs s' r) = remaining (objs s r) - 1"
    "arrival (objs s' a) = arrival (objs s a)"
  using assms by (auto simp: run_tick_def Let_def split: if_splits sum.splits)

lemma readyQueue_subset:
  "a \<in> set (readyQueue s) \<Longrightarrow>
   a \<in> set (processes s) \<and> arrival (objs s a) \<le> currentTime s \<and> remaining (objs s a) > 0"
  by (simp add: readyQueue_def)

lemma set_insert_by: "set (insert_by c x ys) = insert x (set ys)"
  by (induction ys) auto

lemma set_array_sort: "set (array_sort c xs) = set xs"
  by (induction xs) (auto simp: array_sort_def set_insert_by)

lemma array_sort_Nil_iff: "array_sort c xs = [] \<longleftrightarrow> xs = []"
  using set_array_sort [of c xs] by (metis set_empty)

lemma runningProcess_in: "readyQueue s \<noteq> [] \<Longrightarrow> runningProcess s \<in> set (readyQueue s)"
  unfolding runningProcess_def
  using hd_in_set [of "array_sort (\<lambda>a b. comparator (objs s a) (objs s b)) (readyQueue s)"]
  by (simp add: array_sort_Nil_iff set_array_sort)

lemma work_idle:
  assumes "some_remaining s" and "readyQueue s = []" and "idle_tick s = Inr s'"
  shows "work s' < work s"
proof -
  note f = idle_tick_fields [OF assms(3)]
  from assms(1) obtain b where b: "b \<in> set (processes s)" "remaining (objs s b) > 0"
    by (auto simp: some_remaining_def)
  from assms(2) have nr: "\<And>a. a \<in> set (processes s) \<Longrightarrow> remaining (objs s a) > 0
      \<Longrightarrow> currentTime s < arrival (objs s a)"
    by (auto simp: readyQueue_def filter_empty_conv)
  show ?thesis
    unfolding work_def f
    by (rule sum_list_strict) (use b nr in \<open>auto intro!: bexI [of _ b]\<close>)
qed

lemma work_run:
  assumes "r \<in> set (readyQueue s)" and "run_tick s r = Inr s'"
  shows "work s' < work s"
proof -
  note f = run_tick_fields [OF assms(2)]
  from assms(1) have r: "r \<in> set (processes s)" "remaining (objs s r) > 0"
    by (simp_all add: readyQueue_subset)
  have eq: "\<And>a. a \<noteq> r \<Longrightarrow> remaining (objs s' a) = remaining (objs s a)"
    by (simp add: f)
  show ?thesis
    unfolding work_def f(1,2)
  proof (rule sum_list_strict)
    fix x assume "x \<in> set (processes s)"
    show "(if 0 < remaining (objs s' x)
          then nat (remaining (objs s' x)) + nat (arrival (objs s' x) - (currentTime s + 1)) else 0)
       \<le> (if 0 < remaining (objs s x)
          then nat (remaining (objs s x)) + nat (arrival (objs s x) - currentTime s) else 0)"
      using r eq [of x] f(8) by (cases "x = r") (auto simp: f(9))
  next
    show "\<exists>x\<in>set (processes s).
       (if 0 < remaining (objs s' x)
        then nat (remaining (objs s' x)) + nat (arrival (objs s' x) - (currentTime s + 1)) else 0)
       < (if 0 < remaining (objs s x)
          then nat (remaining (objs s x)) + nat (arrival (objs s x) - currentTime s) else 0)"
      using r f(8) by (intro bexI [of _ r]) (auto simp: f(9))
  qed
qed

lemma work_step: "some_remaining s \<Longrightarrow> step s = Inr s' \<Longrightarrow> work s' < work s"
  unfolding step_def
  by (auto split: if_splits intro: work_idle work_run runningProcess_in)

termination loop
  by (relation "measure work") (auto intro: work_step)

declare loop.simps [simp del]

section \<open>The simulation\<close>

text \<open>
  What \<open>runPrioritySimulation\<close> returns: \<open>{ processes, gantt, totalTime, idleTime }\<close>
  (\<open>res_processes\<close> and \<open>res_idleTime\<close> here), with the store as the call leaves it.
\<close>

record result =
  res_processes :: "addr list"
  gantt :: "GanttSegment list"
  totalTime :: int
  res_idleTime :: int

text \<open>The local variables as declared before the loop.\<close>

definition init_sim :: "heap \<Rightarrow> addr list \<Rightarrow> sim" where
  "init_sim h ps =
     \<lparr>objs = objs h, nobjs = nobjs h, arrs = arrs h, narrs = narrs h,
      processes = ps, currentTime = 0, ganttChart = [], idleTime = 0,
      lastProcessId = None, isIdle = False\<rparr>"

text \<open>The two statements after the loop.\<close>

definition finish :: "sim \<Rightarrow> heap \<times> result" where
  "finish s =
     (\<lparr>objs = objs s, nobjs = nobjs s, arrs = arrs s, narrs = narrs s\<rparr>,
      \<lparr>res_processes = processes s, gantt = ganttChart s,
       totalTime = (if length (ganttChart s) > 0 then seg_end (last (ganttChart s)) else 0),
       res_idleTime = idleTime s\<rparr>)"

definition runPrioritySimulation :: "heap \<Rightarrow> addr list \<Rightarrow> error + heap \<times> result" where
  "runPrioritySimulation h initialProcesses =
     (let (h1, ps) = JSON_parse h (JSON_stringify h initialProcesses)
      in case loop (init_sim h1 ps) of
           Inl e \<Rightarrow> Inl e
         | Inr s \<Rightarrow> Inr (finish s))"

section \<open>The utilisation metric\<close>

text \<open>
  \<open>handleSubmit\<close> computes
  \<open>cpuUtil = totalTime > 0 ? ((totalTime - idleTime) / totalTime) * 100 : 0\<close>.
  The division and the multiplication are those of JavaScript numbers (IEEE doubles);
  they are parameters here, so that nothing below depends on how they round. The
  subtraction is exact, both operands being integers.
\<close>

definition cpuUtil ::
    "(int \<Rightarrow> int \<Rightarrow> 'n) \<Rightarrow> ('n \<Rightarrow> 'n \<Rightarrow> 'n) \<Rightarrow> int \<Rightarrow> int \<Rightarrow> 'n::{zero,numeral}" where
  "cpuUtil num_div num_mul total_time idle_time =
     (if total_time > 0 then num_mul (num_div (total_time - idle_time) total_time) 100 else 0)"

section \<open>Process objects and the form\<close>

text \<open>
  A process object as the application creates it (\<open>initialProcesses\<close>, \<open>addProcess\<close>):
  \<open>remaining\<close> equal to \<open>burst\<close>, the derived fields 0.
\<close>

definition new_process :: "int \<Rightarrow> string \<Rightarrow> int \<Rightarrow> int \<Rightarrow> int \<Rightarrow> addr \<Rightarrow> Process" where
  "new_process i p a b pr st =
     \<lparr>proc_id = i, pid = p, arrival = a, burst = b, priority = pr, remaining = b,
      completionTime = 0, turnaroundTime = 0, waitingTime = 0, startTimes = st\<rparr>"

text \<open>
  The process list of the application (\<open>initialProcesses\<close>) and its change handler:
  \<open>handleProcessChange(index, field, value)\<close> replaces the state by
  \<open>prev.map((p, i) => i === index ? { ...p, [field]: numValue } : p)\<close>, unless the
  value is refused. The form calls it for the three fields below; \<open>numValue\<close> is
  \<open>parseInt(value)\<close>.
\<close>

definition initialProcesses :: "Process list" where
  "initialProcesses =
     [new_process 1 ''P1'' 0 8 2 0, new_process 2 ''P2'' 1 4 1 0, new_process 3 ''P3'' 2 9 4 0]"

datatype field_name = Arrival | Burst | Priority

definition handleProcessChange :: "Process list \<Rightarrow> nat \<Rightarrow> field_name \<Rightarrow> int \<Rightarrow> Process list" where
  "handleProcessChange prev index field numValue =
     (if (field = Burst \<or> field = Priority) \<and> numValue \<le> 0 then prev
      else if field = Arrival \<and> numValue < 0 then prev
      else map (\<lambda>(i, p). if i = index
                           then (case field of
                                   Arrival \<Rightarrow> p\<lparr>arrival := numValue\<rparr>
                                 | Burst \<Rightarrow> p\<lparr>burst := numValue\<rparr>
                                 | Priority \<Rightarrow> p\<lparr>priority := numValue\<rparr>)
                           else p) (enumerate 0 prev))"

section \<open>Inputs\<close>

text \<open>A store holding the process objects \<open>ps\<close>, each with an empty \<open>startTimes\<close>.\<close>

definition store_of :: "Process list \<Rightarrow> heap" where
  "store_of ps =
     \<lparr>objs = (\<lambda>a. (if a < length ps then ps ! a else new_process 0 [] 0 0 0 0)\<lparr>startTimes := a\<rparr>),
      nobjs = length ps, arrs = (\<lambda>a. []), narrs = length ps\<rparr>"

text \<open>
  Every reference of the argument points to an allocated object, as every JavaScript
  reference does.
\<close>

definition wf_input :: "heap \<Rightarrow> addr list \<Rightarrow> bool" where
  "wf_input h inp = (\<forall>a \<in> set inp. a < nobjs h \<and> startTimes (objs h a) < narrs h)"

text \<open>
  A valid input, as \<open>handleSubmit\<close> checks it before the call: it rejects a list with a
  process for which \<open>p.burst <= 0 || p.priority <= 0 || p.arrival < 0\<close>.
\<close>

definition valid_input :: "heap \<Rightarrow> addr list \<Rightarrow> bool" where
  "valid_input h inp =
     (\<forall>a \<in> set inp. burst (objs h a) \<ge> 1 \<and> priority (objs h a) \<ge> 1 \<and> arrival (objs h a) \<ge> 0)"

text \<open>No process is called like the idle segments.\<close>

definition no_idle_pid :: "heap \<Rightarrow> addr list \<Rightarrow> bool" where
  "no_idle_pid h inp = (\<forall>a \<in> set inp. pid (objs h a) \<noteq> ''IDLE'')"

text \<open>The application keeps \<open>remaining\<close> equal to \<open>burst\<close> in the objects it creates.\<close>

definition remaining_is_burst :: "heap \<Rightarrow> addr list \<Rightarrow> bool" where
  "remaining_is_burst h inp = (\<forall>a \<in> set inp. remaining (objs h a) = burst (objs h a))"

text \<open>The latest arrival of a list of processes (0 for the empty list).\<close>

definition latest_arrival :: "heap \<Rightarrow> addr list \<Rightarrow> int" where
  "latest_arrival h inp = foldr (\<lambda>a m. max (arrival (objs h a)) m) inp 0"

section \<open>Timelines and runs\<close>

text \<open>A timeline that starts at \<open>t\<close>, without gaps, overlaps or empty segments.\<close>

fun contiguous :: "int \<Rightarrow> GanttSegment list \<Rightarrow> bool" where
  "contiguous t [] = True"
| "contiguous t (g # gs) \<longleftrightarrow>
     seg_start g = t \<and> seg_start g < seg_end g \<and> contiguous (seg_end g) gs"

text \<open>Where a timeline that starts at \<open>t\<close> ends.\<close>

definition timeline_end :: "int \<Rightarrow> GanttSegment list \<Rightarrow> int" where
  "timeline_end t gs = (if gs = [] then t else seg_end (last gs))"

text \<open>The ticks of a segment, and of a timeline.\<close>

definition ticks :: "GanttSegment \<Rightarrow> int list" where
  "ticks g = [seg_start g .. seg_end g - 1]"

text \<open>The state in which the loop is entered: the copy has been made.\<close>

definition entry :: "heap \<Rightarrow> addr list \<Rightarrow> sim" where
  "entry h inp = (let (h1, ps) = JSON_parse h (JSON_stringify h inp) in init_sim h1 ps)"

text \<open>The states the loop of a run goes through, from the state \<open>s0\<close> it is entered in.\<close>

inductive reachable :: "sim \<Rightarrow> sim \<Rightarrow> bool" for s0 :: sim where
  start: "reachable s0 s0"
| tick: "reachable s0 s \<Longrightarrow> some_remaining s \<Longrightarrow> step s = Inr s' \<Longrightarrow> reachable s0 s'"

section \<open>Example inputs\<close>

text \<open>Scenario B of the specification: the first two entries of \<open>initialProcesses\<close>.\<close>

definition scenarioB :: heap where
  "scenarioB = store_of [new_process 1 ''P1'' 0 8 2 0, new_process 2 ''P2'' 1 4 1 0]"

text \<open>Scenario C of the specification: one process that arrives at tick 3.\<close>

definition scenarioC :: heap where
  "scenarioC = store_of [new_process 1 ''P1'' 3 2 1 0]"

text \<open>A process whose \<open>pid\<close> is the label of the idle segments.\<close>

definition idleNamed :: heap where
  "idleNamed = store_of [new_process 1 ''IDLE'' 1 1 1 0]"

text \<open>Two processes with the same arrival and the same priority.\<close>

definition tied :: heap where
  "tied = store_of [new_process 1 ''P1'' 0 2 1 0, new_process 2 ''P2'' 0 2 1 0]"

text \<open>The state of scenario B after tick 0: P1 has run, P2 has just arrived.\<close>

definition preempt_state :: sim where
  "preempt_state = (case step (entry scenarioB [0, 1]) of Inr s \<Rightarrow> s | Inl e \<Rightarrow> entry scenarioB [0, 1])"

text \<open>The state of the two tied processes after tick 0.\<close>

definition tied_state :: sim where
  "tied_state = (case step (entry tied [0, 1]) of Inr s \<Rightarrow> s | Inl e \<Rightarrow> entry tied [0, 1])"

section \<open>Reasoning about the loop\<close>

text \<open>
  The loop never throws from a state in which a segment exists whenever \<open>isIdle\<close> is
  set or a process ran in the previous tick; the state before the loop is such a state.
\<close>

definition no_throw :: "sim \<Rightarrow> bool" where
  "no_throw s = (isIdle s \<or> lastProcessId s \<noteq> None \<longrightarrow> ganttChart s \<noteq> [])"

lemma loop_partial:
  assumes "loop s = Inr t" and "I s"
    and "\<And>u u'. I u \<Longrightarrow> some_remaining u \<Longrightarrow> step u = Inr u' \<Longrightarrow> I u'"
  shows "I t \<and> \<not> some_remaining t"
  using assms(1,2)
proof (induction s rule: loop.induct)
  case (1 s)
  show ?case
  proof (cases "some_remaining s")
    case True
    with "1.prems"(1) have "(case step s of Inl e \<Rightarrow> Inl e | Inr s' \<Rightarrow> loop s') = Inr t"
      by (simp add: loop.simps [of s])
    then obtain s' where s': "step s = Inr s'" "loop s' = Inr t"
      by (cases "step s") auto
    from assms(3) [OF "1.prems"(2) True s'(1)] have "I s'" .
    with "1.IH" [OF True s'(1) s'(2)] show ?thesis .
  next
    case False
    with "1.prems" show ?thesis by (simp add: loop.simps [of s])
  qed
qed

lemma idle_tick_no_throw:
  assumes "no_throw s" shows "\<exists>s'. idle_tick s = Inr s' \<and> no_throw s'"
  using assms by (auto simp: idle_tick_def no_throw_def set_last_end_def)

lemma run_tick_no_throw:
  assumes "no_throw s" shows "\<exists>s'. run_tick s r = Inr s' \<and> no_throw s'"
  using assms by (auto simp: run_tick_def no_throw_def set_last_end_def Let_def)

lemma step_no_throw: "no_throw s \<Longrightarrow> \<exists>s'. step s = Inr s' \<and> no_throw s'"
  by (simp add: step_def idle_tick_no_throw run_tick_no_throw)

lemma loop_total:
  assumes "no_throw s" shows "\<exists>t. loop s = Inr t"
  using assms
proof (induction s rule: loop.induct)
  case (1 s)
  show ?case
  proof (cases "some_remaining s")
    case True
    from step_no_throw [OF "1.prems"] obtain s' where s': "step s = Inr s'" "no_throw s'"
      by blast
    from "1.IH" [OF True s'(1) s'(2)] obtain t where "loop s' = Inr t" ..
    with True s'(1) show ?thesis by (simp add: loop.simps [of s])
  next
    case False
    then show ?thesis by (simp add: loop.simps [of s])
  qed
qed

lemma no_throw_init: "no_throw (init_sim h ps)"
  by (simp add: no_throw_def init_sim_def)

section \<open>The deep copy in closed form\<close>

text \<open>
  The copies are the next free addresses in order, the store is unchanged below them,
  and the \<open>i\<close>-th copy holds the \<open>i\<close>-th record read, with a new array for its
  \<open>startTimes\<close>.
\<close>

lemma JSON_parse_closed:
  "JSON_parse h js = (h', ps) \<Longrightarrow>
     ps = [nobjs h ..< nobjs h + length js] \<and>
     nobjs h' = nobjs h + length js \<and>
     narrs h' = narrs h + length js \<and>
     (\<forall>a < nobjs h. objs h' a = objs h a) \<and>
     (\<forall>a < narrs h. arrs h' a = arrs h a) \<and>
     (\<forall>i < length js.
        objs h' (nobjs h + i) = (fst (js ! i))\<lparr>startTimes := narrs h + i\<rparr> \<and>
        arrs h' (narrs h + i) = snd (js ! i))"
proof (induction js arbitrary: h h' ps)
  case Nil
  then show ?case by simp
next
  case (Cons j js)
  obtain p st where j: "j = (p, st)" by (cases j)
  define h1 where "h1 = h\<lparr>objs := (objs h)(nobjs h := p\<lparr>startTimes := narrs h\<rparr>),
      nobjs := Suc (nobjs h), arrs := (arrs h)(narrs h := st), narrs := Suc (narrs h)\<rparr>"
  obtain h2 obs where rec: "JSON_parse h1 js = (h2, obs)" by (cases "JSON_parse h1 js")
  have res: "JSON_parse h (j # js) = (h2, nobjs h # obs)"
    by (simp add: j Let_def h1_def [symmetric] rec)
  with Cons.prems have eq: "h' = h2" "ps = nobjs h # obs" by simp_all
  note IH = Cons.IH [OF rec]
  have h1: "nobjs h1 = Suc (nobjs h)" "narrs h1 = Suc (narrs h)"
    "objs h1 = (objs h)(nobjs h := p\<lparr>startTimes := narrs h\<rparr>)"
    "arrs h1 = (arrs h)(narrs h := st)"
    by (simp_all add: h1_def)
  have 1: "ps = [nobjs h ..< nobjs h + length (j # js)]"
    using IH by (simp add: eq h1 upt_conv_Cons del: upt_Suc)
  have 2: "nobjs h' = nobjs h + length (j # js)" "narrs h' = narrs h + length (j # js)"
    using IH by (simp_all add: eq h1)
  have 3: "\<forall>a < nobjs h. objs h' a = objs h a"
    using IH by (simp add: eq h1)
  have 4: "\<forall>a < narrs h. arrs h' a = arrs h a"
    using IH by (simp add: eq h1)
  have 5: "objs h' (nobjs h + i) = (fst ((j # js) ! i))\<lparr>startTimes := narrs h + i\<rparr> \<and>
        arrs h' (narrs h + i) = snd ((j # js) ! i)" if "i < length (j # js)" for i
  proof (cases i)
    case 0
    with IH show ?thesis by (simp add: eq h1 j)
  next
    case (Suc k)
    with that have "k < length js" by simp
    with IH have "objs h2 (nobjs h1 + k) = (fst (js ! k))\<lparr>startTimes := narrs h1 + k\<rparr> \<and>
        arrs h2 (narrs h1 + k) = snd (js ! k)" by blast
    then show ?thesis by (simp add: eq h1 Suc)
  qed
  from 1 2 3 4 5 show ?case by blast
qed

section \<open>From call to return\<close>

lemma run_eq:
  "runPrioritySimulation h inp =
     (case loop (entry h inp) of Inl e \<Rightarrow> Inl e | Inr s \<Rightarrow> Inr (finish s))"
  by (simp add: runPrioritySimulation_def entry_def split: prod.splits)

lemma entry_locals:
  "currentTime (entry h inp) = 0" "ganttChart (entry h inp) = []"
  "idleTime (entry h inp) = 0" "lastProcessId (entry h inp) = None"
  "isIdle (entry h inp) = False"
  by (simp_all add: entry_def init_sim_def split: prod.splits)

lemma entry_store:
  "processes (entry h inp) = [nobjs h ..< nobjs h + length inp]"
  "nobjs (entry h inp) = nobjs h + length inp"
  "narrs (entry h inp) = narrs h + length inp"
  "a < nobjs h \<Longrightarrow> objs (entry h inp) a = objs h a"
  "x < narrs h \<Longrightarrow> arrs (entry h inp) x = arrs h x"
  "i < length inp \<Longrightarrow>
     objs (entry h inp) (nobjs h + i) = (objs h (inp ! i))\<lparr>startTimes := narrs h + i\<rparr>"
  "i < length inp \<Longrightarrow>
     arrs (entry h inp) (narrs h + i) = arrs h (startTimes (objs h (inp ! i)))"
proof -
  obtain h1 ps where c: "JSON_parse h (JSON_stringify h inp) = (h1, ps)"
    by (cases "JSON_parse h (JSON_stringify h inp)")
  have e: "entry h inp = init_sim h1 ps" by (simp add: entry_def c)
  note f = JSON_parse_closed [OF c]
  have len: "length (JSON_stringify h inp) = length inp" by (simp add: JSON_stringify_def)
  show "processes (entry h inp) = [nobjs h ..< nobjs h + length inp]"
    using f by (simp add: e init_sim_def len)
  show "nobjs (entry h inp) = nobjs h + length inp"
    using f by (simp add: e init_sim_def len)
  show "narrs (entry h inp) = narrs h + length inp"
    using f by (simp add: e init_sim_def len)
  show "a < nobjs h \<Longrightarrow> objs (entry h inp) a = objs h a"
    using f by (simp add: e init_sim_def)
  show "x < narrs h \<Longrightarrow> arrs (entry h inp) x = arrs h x"
    using f by (simp add: e init_sim_def)
  show "i < length inp \<Longrightarrow>
     objs (entry h inp) (nobjs h + i) = (objs h (inp ! i))\<lparr>startTimes := narrs h + i\<rparr>"
    using f by (simp add: e init_sim_def len JSON_stringify_def)
  show "i < length inp \<Longrightarrow>
     arrs (entry h inp) (narrs h + i) = arrs h (startTimes (objs h (inp ! i)))"
    using f by (simp add: e init_sim_def len JSON_stringify_def)
qed

lemma no_throw_entry: "no_throw (entry h inp)"
  by (simp add: no_throw_def entry_locals)

text \<open>What an iteration leaves alone.\<close>

definition static :: "sim \<Rightarrow> sim \<Rightarrow> bool" where
  "static s s' \<longleftrightarrow>
     processes s' = processes s \<and> nobjs s' = nobjs s \<and> narrs s' = narrs s \<and>
     (\<forall>a. proc_id (objs s' a) = proc_id (objs s a) \<and> pid (objs s' a) = pid (objs s a) \<and>
          arrival (objs s' a) = arrival (objs s a) \<and> burst (objs s' a) = burst (objs s a) \<and>
          priority (objs s' a) = priority (objs s a) \<and>
          startTimes (objs s' a) = startTimes (objs s a)) \<and>
     (\<forall>a. a \<notin> set (processes s) \<longrightarrow> objs s' a = objs s a) \<and>
     (\<forall>x. x \<notin> (\<lambda>a. startTimes (objs s a)) ` set (processes s) \<longrightarrow> arrs s' x = arrs s x)"

lemma static_refl: "static s s"
  by (simp add: static_def)

lemma static_trans: "static s s' \<Longrightarrow> static s' s'' \<Longrightarrow> static s s''"
  by (simp add: static_def)

lemma idle_tick_static: "idle_tick s = Inr s' \<Longrightarrow> static s s'"
  by (simp add: static_def idle_tick_fields)

lemma run_tick_static:
  assumes "run_tick s r = Inr s'" and "r \<in> set (processes s)"
  shows "static s s'"
  using assms
  by (auto simp: static_def run_tick_def Let_def split: if_splits sum.splits)

lemma step_static: "some_remaining s \<Longrightarrow> step s = Inr s' \<Longrightarrow> static s s'"
  unfolding step_def
  using runningProcess_in [of s] readyQueue_subset [of "runningProcess s" s]
  by (auto split: if_splits intro: idle_tick_static run_tick_static)

lemma loop_static: "loop s = Inr t \<Longrightarrow> static s t"
  using loop_partial [where I = "static s"] static_refl static_trans step_static by blast

lemma run_returns:
  obtains t where "loop (entry h inp) = Inr t" "runPrioritySimulation h inp = Inr (finish t)"
    "\<not> some_remaining t" "static (entry h inp) t"
proof -
  from loop_total [OF no_throw_entry] obtain t where t: "loop (entry h inp) = Inr t" ..
  moreover have "runPrioritySimulation h inp = Inr (finish t)" by (simp add: run_eq t)
  moreover have "\<not> some_remaining t"
    using loop_partial [OF t, where I = "\<lambda>_. True"] by simp
  moreover have "static (entry h inp) t" using t by (rule loop_static)
  ultimately show ?thesis by (rule that)
qed

lemma finish_fields:
  "objs (fst (finish t)) = objs t" "arrs (fst (finish t)) = arrs t"
  "nobjs (fst (finish t)) = nobjs t" "narrs (fst (finish t)) = narrs t"
  "res_processes (snd (finish t)) = processes t" "gantt (snd (finish t)) = ganttChart t"
  "res_idleTime (snd (finish t)) = idleTime t"
  "totalTime (snd (finish t)) =
     (if ganttChart t = [] then 0 else seg_end (last (ganttChart t)))"
  by (simp_all add: finish_def)

lemma old_store_kept:
  assumes "static (entry h inp) t"
  shows "a < nobjs h \<Longrightarrow> objs t a = objs h a" and "x < narrs h \<Longrightarrow> arrs t x = arrs h x"
proof -
  assume a: "a < nobjs h"
  then have "a \<notin> set (processes (entry h inp))" by (simp add: entry_store)
  with assms have "objs t a = objs (entry h inp) a" by (simp add: static_def)
  with a show "objs t a = objs h a" by (simp add: entry_store)
next
  assume x: "x < narrs h"
  have "x \<notin> (\<lambda>a. startTimes (objs (entry h inp) a)) ` set (processes (entry h inp))"
  proof
    assume "x \<in> (\<lambda>a. startTimes (objs (entry h inp) a)) ` set (processes (entry h inp))"
    then obtain a where a: "a \<in> set (processes (entry h inp))"
      "x = startTimes (objs (entry h inp) a)" by blast
    from a(1) obtain i where i: "i < length inp" "a = nobjs h + i"
      by (auto simp: entry_store intro: that [of "a - nobjs h"])
    with a(2) have "x = narrs h + i" by (simp add: entry_store)
    with x show False by simp
  qed
  with assms have "arrs t x = arrs (entry h inp) x" by (simp add: static_def)
  with x show "arrs t x = arrs h x" by (simp add: entry_store)
qed

lemma run_empty:
  "runPrioritySimulation h [] =
     Inr (h, \<lparr>res_processes = [], gantt = [], totalTime = 0, res_idleTime = 0\<rparr>)"
proof -
  have "loop (init_sim h []) = Inr (init_sim h [])"
    by (subst loop.simps) (simp add: some_remaining_def init_sim_def)
  then show ?thesis
    by (simp add: runPrioritySimulation_def JSON_stringify_def init_sim_def finish_def)
qed

lemma run_invariant:
  assumes "I (entry h inp)"
    and "\<And>u u'. I u \<Longrightarrow> some_remaining u \<Longrightarrow> step u = Inr u' \<Longrightarrow> I u'"
  obtains t where "runPrioritySimulation h inp = Inr (finish t)" "I t"
    "\<not> some_remaining t" "static (entry h inp) t"
proof -
  obtain t where t: "loop (entry h inp) = Inr t" "runPrioritySimulation h inp = Inr (finish t)"
    "static (entry h inp) t" by (rule run_returns)
  from loop_partial [OF t(1), where I = I, OF assms(1)] assms(2)
  have "I t \<and> \<not> some_remaining t" by blast
  with t show ?thesis by (intro that [of t]) simp_all
qed

section \<open>The timeline\<close>

lemma contiguous_snoc:
  "contiguous t (gs @ [g]) \<longleftrightarrow>
     contiguous t gs \<and> seg_start g = timeline_end t gs \<and> seg_start g < seg_end g"
  by (induction gs arbitrary: t) (auto simp: timeline_end_def)

lemma contiguous_le: "contiguous t gs \<Longrightarrow> t \<le> timeline_end t gs"
proof (induction gs arbitrary: t)
  case Nil
  then show ?case by (simp add: timeline_end_def)
next
  case (Cons g gs)
  then have "seg_end g \<le> timeline_end (seg_end g) gs" by simp
  with Cons.prems show ?case by (auto simp: timeline_end_def split: if_splits)
qed

lemma contiguous_extend:
  assumes "contiguous t gs" and "gs \<noteq> []" and "timeline_end t gs \<le> e"
  shows "contiguous t (butlast gs @ [(last gs)\<lparr>seg_end := e\<rparr>])"
proof -
  from assms(2) have gs: "gs = butlast gs @ [last gs]" by simp
  with assms(1) have "contiguous t (butlast gs @ [last gs])" by simp
  then have "contiguous t (butlast gs)" "seg_start (last gs) = timeline_end t (butlast gs)"
    "seg_start (last gs) < seg_end (last gs)"
    by (simp_all add: contiguous_snoc)
  moreover from assms(2,3) have "seg_end (last gs) \<le> e" by (simp add: timeline_end_def)
  ultimately show ?thesis by (simp add: contiguous_snoc)
qed

lemma contiguous_ticks:
  "contiguous t gs \<Longrightarrow> concat (map ticks gs) = [t .. timeline_end t gs - 1]"
proof (induction gs arbitrary: t)
  case Nil
  then show ?case by (simp add: timeline_end_def)
next
  case (Cons g gs)
  then have IH: "concat (map ticks gs) = [seg_end g .. timeline_end (seg_end g) gs - 1]"
    by simp
  have le: "seg_end g \<le> timeline_end (seg_end g) gs"
    using Cons.prems by (simp add: contiguous_le)
  have te: "timeline_end t (g # gs) = timeline_end (seg_end g) gs"
    by (simp add: timeline_end_def)
  have "[t .. timeline_end (seg_end g) gs - 1] =
        [t .. seg_end g - 1] @ [seg_end g .. timeline_end (seg_end g) gs - 1]"
    using Cons.prems le upto_split2 [of t "seg_end g - 1" "timeline_end (seg_end g) gs - 1"]
    by simp
  moreover have "ticks g = [t .. seg_end g - 1]"
    using Cons.prems by (simp add: ticks_def)
  ultimately show ?case using IH by (simp add: te)
qed

lemma timeline_end_snoc: "timeline_end t (gs @ [g]) = seg_end g"
  by (simp add: timeline_end_def)

lemma labels_extend:
  "gs \<noteq> [] \<Longrightarrow> map seg_pid (butlast gs @ [(last gs)\<lparr>seg_end := e\<rparr>]) = map seg_pid gs"
  by (induction gs) auto

text \<open>What an iteration does to the timeline.\<close>

definition idle_segment :: "int \<Rightarrow> GanttSegment" where
  "idle_segment t = \<lparr>seg_pid = ''IDLE'', seg_start = t, seg_end = t + 1, seg_id = None\<rparr>"

definition run_segment :: "Process \<Rightarrow> int \<Rightarrow> GanttSegment" where
  "run_segment p t =
     \<lparr>seg_pid = pid p, seg_start = t, seg_end = t + 1, seg_id = Some (proc_id p)\<rparr>"

definition extended :: "GanttSegment list \<Rightarrow> int \<Rightarrow> GanttSegment list" where
  "extended gs e = butlast gs @ [(last gs)\<lparr>seg_end := e\<rparr>]"

lemma idle_tick_gantt:
  assumes "idle_tick s = Inr s'"
  shows "isIdle s'"
    and "\<not> isIdle s \<Longrightarrow> ganttChart s' = ganttChart s @ [idle_segment (currentTime s)]"
    and "isIdle s \<Longrightarrow> ganttChart s \<noteq> [] \<and>
           ganttChart s' = extended (ganttChart s) (currentTime s + 1)"
  using assms
  by (auto simp: idle_tick_def idle_segment_def extended_def set_last_end_def
      split: if_splits sum.splits)

lemma run_tick_gantt:
  assumes "run_tick s r = Inr s'"
  shows "Some (pid (objs s r)) \<noteq> lastProcessId s \<Longrightarrow>
           ganttChart s' = ganttChart s @ [run_segment (objs s r) (currentTime s)] \<and>
           \<not> isIdle s'"
    and "Some (pid (objs s r)) = lastProcessId s \<Longrightarrow> ganttChart s \<noteq> [] \<and>
           ganttChart s' = extended (ganttChart s) (currentTime s + 1) \<and>
           isIdle s' = isIdle s"
  using assms
  by (auto simp: run_tick_def run_segment_def extended_def set_last_end_def Let_def
      split: if_splits sum.splits)

definition timeline_inv :: "sim \<Rightarrow> bool" where
  "timeline_inv s \<longleftrightarrow>
     contiguous 0 (ganttChart s) \<and> timeline_end 0 (ganttChart s) = currentTime s"

lemma timeline_push:
  assumes "timeline_inv s" and "ganttChart s' = ganttChart s @ [g]"
    and "seg_start g = currentTime s" and "seg_end g = currentTime s + 1"
    and "currentTime s' = currentTime s + 1"
  shows "timeline_inv s'"
  using assms by (simp add: timeline_inv_def contiguous_snoc timeline_end_snoc)

lemma timeline_extend:
  assumes "timeline_inv s" and "ganttChart s \<noteq> []"
    and "ganttChart s' = extended (ganttChart s) (currentTime s + 1)"
    and "currentTime s' = currentTime s + 1"
  shows "timeline_inv s'"
proof -
  from assms(1) have c: "contiguous 0 (ganttChart s)"
    and e: "timeline_end 0 (ganttChart s) = currentTime s"
    by (simp_all add: timeline_inv_def)
  from contiguous_extend [OF c assms(2), of "currentTime s + 1"] e
  have "contiguous 0 (ganttChart s')" by (simp add: assms(3) extended_def)
  moreover have "timeline_end 0 (ganttChart s') = currentTime s'"
    by (simp add: assms(3,4) extended_def timeline_end_snoc)
  ultimately show ?thesis by (simp add: timeline_inv_def)
qed

lemma idle_tick_timeline: "timeline_inv s \<Longrightarrow> idle_tick s = Inr s' \<Longrightarrow> timeline_inv s'"
  using idle_tick_gantt [of s s'] idle_tick_fields(4) [of s s']
  by (cases "isIdle s")
    (auto intro: timeline_extend timeline_push [where g = "idle_segment (currentTime s)"]
       simp: idle_segment_def)

lemma run_tick_timeline: "timeline_inv s \<Longrightarrow> run_tick s r = Inr s' \<Longrightarrow> timeline_inv s'"
  using run_tick_gantt [of s r s'] run_tick_fields(2) [of s r s']
  by (cases "Some (pid (objs s r)) = lastProcessId s")
    (auto intro: timeline_extend
       timeline_push [where g = "run_segment (objs s r) (currentTime s)"]
       simp: run_segment_def)

lemma step_timeline: "timeline_inv s \<Longrightarrow> step s = Inr s' \<Longrightarrow> timeline_inv s'"
  by (auto simp: step_def intro: idle_tick_timeline run_tick_timeline split: if_splits)

definition label_inv :: "sim \<Rightarrow> bool" where
  "label_inv s \<longleftrightarrow>
     distinct_adj (map seg_pid (ganttChart s)) \<and>
     (\<forall>a \<in> set (processes s). pid (objs s a) \<noteq> ''IDLE'') \<and>
     (case lastProcessId s of
        Some q \<Rightarrow> q \<noteq> ''IDLE'' \<and> \<not> isIdle s \<and> ganttChart s \<noteq> [] \<and>
                  seg_pid (last (ganttChart s)) = q
      | None \<Rightarrow> if isIdle s
                then ganttChart s \<noteq> [] \<and> seg_pid (last (ganttChart s)) = ''IDLE''
                else ganttChart s = [])"

lemma last_extended: "gs \<noteq> [] \<Longrightarrow> seg_pid (last (extended gs e)) = seg_pid (last gs)"
  by (simp add: extended_def)

lemma extended_not_Nil: "extended gs e \<noteq> []"
  by (simp add: extended_def)

lemma labels_extended: "gs \<noteq> [] \<Longrightarrow> map seg_pid (extended gs e) = map seg_pid gs"
  unfolding extended_def by (rule labels_extend)

lemma distinct_adj_snoc:
  "distinct_adj (xs @ [x]) \<longleftrightarrow> distinct_adj xs \<and> (xs = [] \<or> last xs \<noteq> x)"
  by (simp add: distinct_adj_append_iff)

lemma idle_tick_label:
  assumes "label_inv s" and "idle_tick s = Inr s'"
  shows "label_inv s'"
proof -
  note f = idle_tick_fields [OF assms(2)]
  note g = idle_tick_gantt [OF assms(2)]
  show ?thesis
  proof (cases "isIdle s")
    case True
    with g have ne: "ganttChart s \<noteq> []"
      and g': "ganttChart s' = extended (ganttChart s) (currentTime s + 1)" by simp_all
    from assms(1) True have "seg_pid (last (ganttChart s)) = ''IDLE''"
      by (auto simp: label_inv_def split: option.splits)
    with assms(1) ne show ?thesis
      by (simp add: label_inv_def f g(1) g' labels_extended last_extended extended_not_Nil)
  next
    case False
    with g have g': "ganttChart s' = ganttChart s @ [idle_segment (currentTime s)]" by simp
    from assms(1) False have "ganttChart s = [] \<or> seg_pid (last (ganttChart s)) \<noteq> ''IDLE''"
      by (auto simp: label_inv_def split: option.splits)
    with assms(1) show ?thesis
      by (auto simp: label_inv_def f g(1) g' distinct_adj_snoc last_map idle_segment_def)
  qed
qed

lemma run_tick_label:
  assumes "label_inv s" and "run_tick s r = Inr s'" and "r \<in> set (processes s)"
  shows "label_inv s'"
proof -
  note f = run_tick_fields [OF assms(2)]
  note g = run_tick_gantt [OF assms(2)]
  have pids: "pid (objs s' a) = pid (objs s a)" for a
    using run_tick_static [OF assms(2,3)] by (simp add: static_def)
  from assms(1,3) have r: "pid (objs s r) \<noteq> ''IDLE''" by (simp add: label_inv_def)
  show ?thesis
  proof (cases "Some (pid (objs s r)) = lastProcessId s")
    case True
    with g have ne: "ganttChart s \<noteq> []"
      and g': "ganttChart s' = extended (ganttChart s) (currentTime s + 1)"
      and i: "isIdle s' = isIdle s" by simp_all
    from assms(1) True [symmetric] ne show ?thesis
      by (simp add: label_inv_def f pids g' i labels_extended last_extended extended_not_Nil)
  next
    case False
    with g have g': "ganttChart s' = ganttChart s @ [run_segment (objs s r) (currentTime s)]"
      and i: "\<not> isIdle s'" by simp_all
    from assms(1) False r
    have "ganttChart s = [] \<or> seg_pid (last (ganttChart s)) \<noteq> pid (objs s r)"
      by (auto simp: label_inv_def split: option.splits if_splits)
    with assms(1) r show ?thesis
      by (auto simp: label_inv_def f pids g' i distinct_adj_snoc last_map run_segment_def)
  qed
qed

lemma step_label: "label_inv s \<Longrightarrow> some_remaining s \<Longrightarrow> step s = Inr s' \<Longrightarrow> label_inv s'"
  unfolding step_def
  using runningProcess_in [of s] readyQueue_subset [of "runningProcess s" s]
  by (auto split: if_splits intro: idle_tick_label run_tick_label)

lemma timeline_entry: "timeline_inv (entry h inp)"
  by (simp add: timeline_inv_def entry_locals timeline_end_def)

lemma entry_pid:
  assumes "a \<in> set (processes (entry h inp))"
  obtains i where "i < length inp" "a = nobjs h + i"
    "objs (entry h inp) a = (objs h (inp ! i))\<lparr>startTimes := narrs h + i\<rparr>"
proof -
  from assms have lt: "a - nobjs h < length inp" and eq: "nobjs h + (a - nobjs h) = a"
    by (auto simp: entry_store)
  show ?thesis
  proof (rule that [of "a - nobjs h"])
    show "a - nobjs h < length inp" by fact
    show "a = nobjs h + (a - nobjs h)" by (simp only: eq)
    show "objs (entry h inp) a =
        (objs h (inp ! (a - nobjs h)))\<lparr>startTimes := narrs h + (a - nobjs h)\<rparr>"
      using entry_store(6) [OF lt, of h] by (simp only: eq)
  qed
qed

lemma label_entry:
  assumes "\<forall>a \<in> set inp. pid (objs h a) \<noteq> ''IDLE''"
  shows "label_inv (entry h inp)"
proof -
  have "pid (objs (entry h inp) a) \<noteq> ''IDLE''" if "a \<in> set (processes (entry h inp))" for a
  proof -
    from that obtain i where "i < length inp"
      "objs (entry h inp) a = (objs h (inp ! i))\<lparr>startTimes := narrs h + i\<rparr>"
      by (rule entry_pid)
    with assms show ?thesis by simp
  qed
  then show ?thesis by (simp add: label_inv_def entry_locals)
qed

lemma contiguous_nonempty: "contiguous t gs \<Longrightarrow> \<forall>g \<in> set gs. seg_start g < seg_end g"
  by (induction gs arbitrary: t) auto

lemma totalTime_finish: "totalTime (snd (finish t)) = timeline_end 0 (ganttChart t)"
  by (simp add: finish_def timeline_end_def)

section \<open>The selection\<close>

text \<open>The first element of the sorted array, computed directly.\<close>

lemma hd_array_sort_Cons:
  "hd (array_sort c (x # xs)) =
     (if xs = [] then x
      else if c x (hd (array_sort c xs)) \<le> 0 then x else hd (array_sort c xs))"
proof (cases "array_sort c xs")
  case Nil
  then have "xs = []" by (simp add: array_sort_Nil_iff)
  then show ?thesis by (simp add: array_sort_def)
next
  case (Cons y ys)
  then have "xs \<noteq> []" using array_sort_Nil_iff [of c xs] by auto
  moreover have "array_sort c (x # xs) = insert_by c x (y # ys)"
    using Cons by (simp add: array_sort_def)
  ultimately show ?thesis using Cons by simp
qed

text \<open>The sort key of the comparator: priority first, then arrival.\<close>

definition sort_key :: "Process \<Rightarrow> int \<times> int" where
  "sort_key p = (priority p, arrival p)"

definition key_le :: "int \<times> int \<Rightarrow> int \<times> int \<Rightarrow> bool" where
  "key_le k k' \<longleftrightarrow> fst k < fst k' \<or> (fst k = fst k' \<and> snd k \<le> snd k')"

lemma comparator_le: "comparator a b \<le> 0 \<longleftrightarrow> key_le (sort_key a) (sort_key b)"
  by (auto simp: comparator_def key_le_def sort_key_def)

lemma key_le_trans: "key_le a b \<Longrightarrow> key_le b c \<Longrightarrow> key_le a c"
  by (auto simp: key_le_def)

lemma key_le_total: "key_le a b \<or> key_le b a"
  by (auto simp: key_le_def)

lemma key_le_refl: "key_le a a"
  by (simp add: key_le_def)

lemma key_le_antisym: "key_le a b \<Longrightarrow> key_le b a \<Longrightarrow> a = b"
  by (auto simp: key_le_def prod_eq_iff)

text \<open>
  The first element after the sort is a least element, and among elements with equal
  keys never one that has another before it in the array.
\<close>

lemma hd_array_sort_least:
  fixes k :: "'a \<Rightarrow> int \<times> int"
  assumes c: "\<And>a b. c a b \<le> 0 \<longleftrightarrow> key_le (k a) (k b)" and "xs \<noteq> []"
  shows "hd (array_sort c xs) \<in> set xs \<and> (\<forall>y \<in> set xs. key_le (k (hd (array_sort c xs))) (k y))"
  using assms(2)
proof (induction xs)
  case Nil
  then show ?case by simp
next
  case (Cons x xs)
  show ?case
  proof (cases "xs = []")
    case True
    then show ?thesis by (simp add: array_sort_def key_le_refl)
  next
    case False
    with Cons.IH have IH: "hd (array_sort c xs) \<in> set xs"
      "\<forall>y \<in> set xs. key_le (k (hd (array_sort c xs))) (k y)" by simp_all
    show ?thesis
    proof (cases "c x (hd (array_sort c xs)) \<le> 0")
      case True
      then have "key_le (k x) (k (hd (array_sort c xs)))" by (simp add: c)
      with IH(2) have "\<forall>y \<in> set xs. key_le (k x) (k y)" by (blast intro: key_le_trans)
      with True False show ?thesis by (simp add: hd_array_sort_Cons key_le_refl)
    next
      case F: False
      then have "\<not> key_le (k x) (k (hd (array_sort c xs)))" by (simp add: c)
      then have "key_le (k (hd (array_sort c xs))) (k x)" using key_le_total by blast
      with IH F False show ?thesis by (simp add: hd_array_sort_Cons)
    qed
  qed
qed

lemma hd_array_sort_stable:
  fixes k :: "'a \<Rightarrow> int \<times> int"
  assumes c: "\<And>a b. c a b \<le> 0 \<longleftrightarrow> key_le (k a) (k b)"
    and "distinct xs" and "xs = us @ x # vs" and "y \<in> set vs" and "k x = k y"
  shows "hd (array_sort c xs) \<noteq> y"
  using assms(2,3)
proof (induction us arbitrary: xs)
  case Nil
  then have xs: "xs = x # vs" and xy: "x \<noteq> y" using assms(4) by auto
  from assms(4) have ne: "vs \<noteq> []" by auto
  from hd_array_sort_least [of c k vs, OF c ne] assms(4)
  have m: "key_le (k (hd (array_sort c vs))) (k y)" by simp
  show ?case
  proof (cases "key_le (k x) (k (hd (array_sort c vs)))")
    case True
    with ne xy show ?thesis by (simp add: xs hd_array_sort_Cons c)
  next
    case False
    then have "k (hd (array_sort c vs)) \<noteq> k y"
      using assms(5) key_le_refl [of "k x"] by auto
    then have "hd (array_sort c vs) \<noteq> y" by auto
    with False ne show ?thesis by (simp add: xs hd_array_sort_Cons c)
  qed
next
  case (Cons u us)
  let ?ys = "us @ x # vs"
  from Cons.prems have "hd (array_sort c ?ys) \<noteq> y" by (intro Cons.IH) simp_all
  moreover from Cons.prems assms(4) have "u \<noteq> y" by auto
  ultimately show ?case using Cons.prems(2)
    by (simp add: hd_array_sort_Cons c del: append_is_Nil_conv)
qed

lemma filter_keeps_order:
  assumes "i < j" and "j < length ps" and "P (ps ! i)" and "P (ps ! j)"
  shows "\<exists>us vs. filter P ps = us @ ps ! i # vs \<and> ps ! j \<in> set vs"
proof -
  from assms(1,2) have i: "i < length ps" by simp
  have ps: "ps = take i ps @ ps ! i # drop (Suc i) ps"
    using i by (simp add: id_take_nth_drop)
  have "ps ! j = drop (Suc i) ps ! (j - Suc i)" using assms(1,2) by simp
  moreover have "j - Suc i < length (drop (Suc i) ps)" using assms(1,2) by simp
  ultimately have "ps ! j \<in> set (drop (Suc i) ps)" by (metis nth_mem)
  with assms(4) have "ps ! j \<in> set (filter P (drop (Suc i) ps))" by simp
  moreover have "filter P ps = filter P (take i ps) @ ps ! i # filter P (drop (Suc i) ps)"
    using assms(3) by (subst ps) simp
  ultimately show ?thesis by blast
qed

lemma runningProcess_least:
  assumes "readyQueue s \<noteq> []"
  shows "\<forall>a \<in> set (readyQueue s).
     key_le (sort_key (objs s (runningProcess s))) (sort_key (objs s a))"
  unfolding runningProcess_def
  using hd_array_sort_least [of "\<lambda>a b. comparator (objs s a) (objs s b)"
      "\<lambda>a. sort_key (objs s a)" "readyQueue s", OF comparator_le assms]
  by simp

lemma runningProcess_stable:
  assumes "distinct (processes s)" and "i < j" and "j < length (processes s)"
    and "sort_key (objs s (processes s ! i)) = sort_key (objs s (processes s ! j))"
    and "0 < remaining (objs s (processes s ! i))"
    and "readyQueue s \<noteq> []"
  shows "runningProcess s \<noteq> processes s ! j"
proof
  assume r: "runningProcess s = processes s ! j"
  let ?P = "\<lambda>a. arrival (objs s a) \<le> currentTime s \<and> remaining (objs s a) > 0"
  from runningProcess_in [OF assms(6)] r have Pj: "?P (processes s ! j)"
    by (simp add: readyQueue_def)
  with assms(4,5) have Pi: "?P (processes s ! i)" by (simp add: sort_key_def)
  from filter_keeps_order [of i j "processes s" ?P, OF assms(2,3) Pi Pj]
  obtain us vs where rq: "readyQueue s = us @ processes s ! i # vs"
    and j: "processes s ! j \<in> set vs" by (auto simp: readyQueue_def)
  have d: "distinct (readyQueue s)" using assms(1) by (simp add: readyQueue_def)
  from hd_array_sort_stable [of "\<lambda>a b. comparator (objs s a) (objs s b)"
      "\<lambda>a. sort_key (objs s a)" "readyQueue s" us "processes s ! i" vs "processes s ! j",
      OF comparator_le d rq j assms(4)]
  have "runningProcess s \<noteq> processes s ! j" by (simp add: runningProcess_def)
  with r show False by simp
qed

lemma reachable_static: "reachable s0 s \<Longrightarrow> static s0 s"
  by (induction rule: reachable.induct) (auto intro: static_refl static_trans step_static)

section \<open>Bookkeeping\<close>

lemma run_tick_completion:
  assumes "run_tick s r = Inr s'"
  shows "remaining (objs s r) = 1 \<Longrightarrow>
           completionTime (objs s' r) = currentTime s + 1 \<and>
           turnaroundTime (objs s' r) = currentTime s + 1 - arrival (objs s r) \<and>
           waitingTime (objs s' r) = currentTime s + 1 - arrival (objs s r) - burst (objs s r)"
    and "remaining (objs s r) \<noteq> 1 \<Longrightarrow>
           completionTime (objs s' r) = completionTime (objs s r) \<and>
           turnaroundTime (objs s' r) = turnaroundTime (objs s r) \<and>
           waitingTime (objs s' r) = waitingTime (objs s r)"
  using assms
  by (auto simp: run_tick_def Let_def split: if_splits sum.splits)

lemma sum_list_change_one:
  fixes f g :: "'a \<Rightarrow> int"
  assumes "distinct xs" and "r \<in> set xs" and "\<And>a. a \<noteq> r \<Longrightarrow> g a = f a"
  shows "sum_list (map g xs) = sum_list (map f xs) + (g r - f r)"
  using assms(1,2)
proof (induction xs)
  case Nil
  then show ?case by simp
next
  case (Cons x xs)
  show ?case
  proof (cases "x = r")
    case True
    with Cons.prems have "r \<notin> set xs" by simp
    then have "g y = f y" if "y \<in> set xs" for y using that assms(3) [of y] by auto
    then have m: "map g xs = map f xs" by (intro map_cong refl)
    show ?thesis by (simp add: True m)
  next
    case False
    with Cons have "sum_list (map g xs) = sum_list (map f xs) + (g r - f r)" by simp
    with False assms(3) [of x] show ?thesis by simp
  qed
qed

text \<open>
  The bookkeeping of a run, relative to the state \<open>s0\<close> in which the loop was entered:
  every process has done part of the work it came with, none of it before its arrival,
  and the clock has counted the idle ticks and the work done.
\<close>

definition done_work :: "sim \<Rightarrow> sim \<Rightarrow> addr \<Rightarrow> int" where
  "done_work s0 s a = remaining (objs s0 a) - remaining (objs s a)"

definition accounted :: "sim \<Rightarrow> sim \<Rightarrow> bool" where
  "accounted s0 s \<longleftrightarrow>
     static s0 s \<and> distinct (processes s0) \<and> 0 \<le> idleTime s \<and>
     currentTime s = idleTime s + (\<Sum>a\<leftarrow>processes s0. done_work s0 s a) \<and>
     (\<forall>a \<in> set (processes s0).
        0 \<le> remaining (objs s a) \<and> 0 \<le> done_work s0 s a \<and>
        (0 < done_work s0 s a \<longrightarrow> arrival (objs s0 a) + done_work s0 s a \<le> currentTime s) \<and>
        (remaining (objs s a) = 0 \<and> 0 < remaining (objs s0 a) \<longrightarrow>
           arrival (objs s0 a) + remaining (objs s0 a) \<le> completionTime (objs s a) \<and>
           turnaroundTime (objs s a) = completionTime (objs s a) - arrival (objs s0 a) \<and>
           waitingTime (objs s a) = turnaroundTime (objs s a) - burst (objs s0 a)))"

lemma accounted_start:
  assumes "distinct (processes s0)" and "idleTime s0 = 0" and "currentTime s0 = 0"
    and "\<forall>a \<in> set (processes s0). 0 \<le> remaining (objs s0 a)"
  shows "accounted s0 s0"
  using assms by (auto simp: accounted_def static_refl done_work_def)

lemma idle_tick_accounted:
  assumes "accounted s0 s" and "idle_tick s = Inr s'"
  shows "accounted s0 s'"
proof -
  note f = idle_tick_fields [OF assms(2)]
  have st: "static s0 s'"
    using assms(1) idle_tick_static [OF assms(2)] by (auto simp: accounted_def intro: static_trans)
  have dw: "done_work s0 s' = done_work s0 s" by (simp add: done_work_def f fun_eq_iff)
  from assms(1) st show ?thesis
    by (simp add: accounted_def dw f) fastforce
qed

lemma run_tick_accounted:
  assumes "accounted s0 s" and "r \<in> set (readyQueue s)" and "run_tick s r = Inr s'"
  shows "accounted s0 s'"
proof -
  note f = run_tick_fields [OF assms(3)]
  note c = run_tick_completion [OF assms(3)]
  from assms(1) have st0: "static s0 s" and d: "distinct (processes s0)"
    and idle: "0 \<le> idleTime s"
    and clock: "currentTime s = idleTime s + (\<Sum>a\<leftarrow>processes s0. done_work s0 s a)"
    by (simp_all add: accounted_def)
  from st0 have ps: "processes s = processes s0"
    and arr: "\<And>a. arrival (objs s a) = arrival (objs s0 a)"
    and bur: "\<And>a. burst (objs s a) = burst (objs s0 a)"
    by (simp_all add: static_def)
  from readyQueue_subset [OF assms(2)] have r: "r \<in> set (processes s0)"
    and ready: "arrival (objs s0 r) \<le> currentTime s" and pos: "0 < remaining (objs s r)"
    by (simp_all add: ps arr)
  have st: "static s0 s'"
    using st0 run_tick_static [OF assms(3)] r ps by (auto intro: static_trans)
  have other: "done_work s0 s' a = done_work s0 s a" if "a \<noteq> r" for a
    using that by (simp add: done_work_def f(7))
  have self: "done_work s0 s' r = done_work s0 s r + 1"
    by (simp add: done_work_def f(8))
  have sum: "(\<Sum>a\<leftarrow>processes s0. done_work s0 s' a) =
      (\<Sum>a\<leftarrow>processes s0. done_work s0 s a) + 1"
    using sum_list_change_one [OF d r, of "done_work s0 s'" "done_work s0 s"] other self
    by simp
  have each: "0 \<le> remaining (objs s' a) \<and> 0 \<le> done_work s0 s' a \<and>
        (0 < done_work s0 s' a \<longrightarrow> arrival (objs s0 a) + done_work s0 s' a \<le> currentTime s') \<and>
        (remaining (objs s' a) = 0 \<and> 0 < remaining (objs s0 a) \<longrightarrow>
           arrival (objs s0 a) + remaining (objs s0 a) \<le> completionTime (objs s' a) \<and>
           turnaroundTime (objs s' a) = completionTime (objs s' a) - arrival (objs s0 a) \<and>
           waitingTime (objs s' a) = turnaroundTime (objs s' a) - burst (objs s0 a))"
    if a: "a \<in> set (processes s0)" for a
  proof -
    from assms(1) a have old: "0 \<le> remaining (objs s a)" "0 \<le> done_work s0 s a"
      "0 < done_work s0 s a \<longrightarrow> arrival (objs s0 a) + done_work s0 s a \<le> currentTime s"
      "remaining (objs s a) = 0 \<and> 0 < remaining (objs s0 a) \<longrightarrow>
           arrival (objs s0 a) + remaining (objs s0 a) \<le> completionTime (objs s a) \<and>
           turnaroundTime (objs s a) = completionTime (objs s a) - arrival (objs s0 a) \<and>
           waitingTime (objs s a) = turnaroundTime (objs s a) - burst (objs s0 a)"
      unfolding accounted_def by blast+
    show ?thesis
    proof (cases "a = r")
      case False
      with old other [OF False] show ?thesis by (auto simp: f(7) f(2))
    next
      case True
      have rem: "remaining (objs s' r) = remaining (objs s r) - 1" by (rule f(8))
      have w: "arrival (objs s0 r) + done_work s0 s' r \<le> currentTime s'"
        using old(2,3) ready by (auto simp: self f(2) True)
      have fin: "arrival (objs s0 r) + remaining (objs s0 r) \<le> completionTime (objs s' r) \<and>
           turnaroundTime (objs s' r) = completionTime (objs s' r) - arrival (objs s0 r) \<and>
           waitingTime (objs s' r) = turnaroundTime (objs s' r) - burst (objs s0 r)"
        if "remaining (objs s' r) = 0"
      proof -
        from that rem have one: "remaining (objs s r) = 1" by simp
        then have "done_work s0 s' r = remaining (objs s0 r)"
          by (simp add: done_work_def rem)
        with w have "arrival (objs s0 r) + remaining (objs s0 r) \<le> currentTime s + 1"
          by (simp add: f(2))
        with c(1) [OF one] show ?thesis by (simp add: arr bur)
      qed
      from pos old(2) w fin show ?thesis by (simp add: True rem self)
    qed
  qed
  show ?thesis
    unfolding accounted_def
    using st d idle each by (simp add: f(2,3) clock sum)
qed

lemma step_accounted:
  "accounted s0 s \<Longrightarrow> some_remaining s \<Longrightarrow> step s = Inr s' \<Longrightarrow> accounted s0 s'"
  unfolding step_def
  using runningProcess_in [of s]
  by (auto split: if_splits intro: idle_tick_accounted run_tick_accounted)

text \<open>Idle ticks only happen before the last arrival.\<close>

definition idle_bounded :: "int \<Rightarrow> sim \<Rightarrow> bool" where
  "idle_bounded m s \<longleftrightarrow>
     idleTime s \<le> currentTime s \<and> idleTime s \<le> m \<and>
     (\<forall>a \<in> set (processes s). arrival (objs s a) \<le> m)"

lemma step_idle_bounded:
  assumes "idle_bounded m s" and "some_remaining s" and "step s = Inr s'"
  shows "idle_bounded m s'"
proof (cases "readyQueue s = []")
  case True
  with assms(3) have i: "idle_tick s = Inr s'" by (simp add: step_def)
  note f = idle_tick_fields [OF i]
  from assms(2) obtain b where b: "b \<in> set (processes s)" "remaining (objs s b) > 0"
    by (auto simp: some_remaining_def)
  with True have "currentTime s < arrival (objs s b)"
    by (auto simp: readyQueue_def filter_empty_conv)
  with assms(1) b(1) have "idleTime s + 1 \<le> m" by (auto simp: idle_bounded_def)
  with assms(1) show ?thesis by (simp add: idle_bounded_def f)
next
  case False
  with assms(3) have r: "run_tick s (runningProcess s) = Inr s'" by (simp add: step_def)
  note f = run_tick_fields [OF r]
  from assms(1) show ?thesis by (simp add: idle_bounded_def f)
qed

lemma latest_arrival_ge:
  "0 \<le> latest_arrival h inp" "a \<in> set inp \<Longrightarrow> arrival (objs h a) \<le> latest_arrival h inp"
  by (induction inp) (auto simp: latest_arrival_def)

lemma entry_fields:
  assumes "i < length inp"
  shows "remaining (objs (entry h inp) (processes (entry h inp) ! i)) = remaining (objs h (inp ! i))"
    and "arrival (objs (entry h inp) (processes (entry h inp) ! i)) = arrival (objs h (inp ! i))"
    and "burst (objs (entry h inp) (processes (entry h inp) ! i)) = burst (objs h (inp ! i))"
  using assms by (simp_all add: entry_store)

lemma entry_all:
  assumes "\<forall>a \<in> set inp. P (remaining (objs h a)) (arrival (objs h a)) (burst (objs h a))"
    and "a \<in> set (processes (entry h inp))"
  shows "P (remaining (objs (entry h inp) a)) (arrival (objs (entry h inp) a))
           (burst (objs (entry h inp) a))"
proof -
  from assms(2) obtain i where i: "i < length inp"
    "objs (entry h inp) a = (objs h (inp ! i))\<lparr>startTimes := narrs h + i\<rparr>"
    by (rule entry_pid)
  with assms(1) show ?thesis by simp
qed

lemma entry_sum_remaining:
  "(\<Sum>a\<leftarrow>processes (entry h inp). remaining (objs (entry h inp) a)) =
   (\<Sum>a\<leftarrow>inp. remaining (objs h a))"
proof -
  have "map (\<lambda>a. remaining (objs (entry h inp) a)) (processes (entry h inp)) =
        map (\<lambda>a. remaining (objs h a)) inp"
    by (rule nth_equalityI) (simp_all add: entry_store)
  then show ?thesis by simp
qed

lemma run_accounted:
  assumes "\<forall>a \<in> set inp. 0 \<le> remaining (objs h a)"
  obtains t where "runPrioritySimulation h inp = Inr (finish t)"
    "accounted (entry h inp) t" "\<not> some_remaining t" "timeline_inv t"
    "idle_bounded (latest_arrival h inp) t"
proof -
  let ?e = "entry h inp"
  define I where "I s \<longleftrightarrow> accounted ?e s \<and> timeline_inv s \<and>
      idle_bounded (latest_arrival h inp) s" for s
  have "accounted ?e ?e"
  proof (rule accounted_start)
    show "distinct (processes ?e)" by (simp add: entry_store)
    show "\<forall>a \<in> set (processes ?e). 0 \<le> remaining (objs ?e a)"
      using entry_all [of inp "\<lambda>r a b. 0 \<le> r" h] assms by blast
  qed (simp_all add: entry_locals)
  moreover have "idle_bounded (latest_arrival h inp) ?e"
    using entry_all [of inp "\<lambda>r a b. a \<le> latest_arrival h inp" h]
    by (auto simp: idle_bounded_def entry_locals latest_arrival_ge)
  ultimately have "I ?e" by (simp add: I_def timeline_entry)
  moreover have "I u'" if "I u" "some_remaining u" "step u = Inr u'" for u u'
    using that by (auto simp: I_def intro: step_accounted step_timeline step_idle_bounded)
  ultimately obtain t where "runPrioritySimulation h inp = Inr (finish t)" "I t"
    "\<not> some_remaining t"
    by (rule run_invariant)
  then show ?thesis by (intro that [of t]) (simp_all add: I_def)
qed

lemma accounted_end:
  assumes "accounted s0 t" and "\<not> some_remaining t" and "a \<in> set (processes s0)"
  shows "remaining (objs t a) = 0"
proof -
  from assms(1) have "processes t = processes s0" by (simp add: accounted_def static_def)
  with assms(2,3) have "remaining (objs t a) \<le> 0" by (auto simp: some_remaining_def)
  moreover from assms(1,3) have "0 \<le> remaining (objs t a)" by (simp add: accounted_def)
  ultimately show ?thesis by simp
qed

lemma total_time_split:
  assumes "\<forall>a \<in> set inp. 0 \<le> remaining (objs h a)"
  shows "\<exists>h' r. runPrioritySimulation h inp = Inr (h', r) \<and>
     totalTime r = (\<Sum>a\<leftarrow>inp. remaining (objs h a)) + res_idleTime r \<and>
     0 \<le> res_idleTime r \<and> res_idleTime r \<le> latest_arrival h inp"
proof -
  let ?e = "entry h inp"
  from assms obtain t where t: "runPrioritySimulation h inp = Inr (finish t)"
    "accounted ?e t" "\<not> some_remaining t" "timeline_inv t"
    "idle_bounded (latest_arrival h inp) t"
    by (rule run_accounted)
  have "done_work ?e t a = remaining (objs ?e a)" if "a \<in> set (processes ?e)" for a
    using accounted_end [OF t(2,3) that] by (simp add: done_work_def)
  then have "map (done_work ?e t) (processes ?e) =
      map (\<lambda>a. remaining (objs ?e a)) (processes ?e)" by simp
  then have "(\<Sum>a\<leftarrow>processes ?e. done_work ?e t a) = (\<Sum>a\<leftarrow>inp. remaining (objs h a))"
    by (simp only: entry_sum_remaining)
  with t(2) have "currentTime t = idleTime t + (\<Sum>a\<leftarrow>inp. remaining (objs h a))"
    by (simp add: accounted_def)
  moreover from t(4) have "totalTime (snd (finish t)) = currentTime t"
    by (simp add: totalTime_finish timeline_inv_def)
  ultimately have "totalTime (snd (finish t)) =
      (\<Sum>a\<leftarrow>inp. remaining (objs h a)) + res_idleTime (snd (finish t))"
    by (simp add: finish_fields)
  moreover from t(2) have "0 \<le> res_idleTime (snd (finish t))"
    by (simp add: finish_fields accounted_def)
  moreover from t(5) have "res_idleTime (snd (finish t)) \<le> latest_arrival h inp"
    by (simp add: finish_fields idle_bounded_def)
  moreover have "runPrioritySimulation h inp = Inr (fst (finish t), snd (finish t))"
    by (simp add: t(1))
  ultimately show ?thesis by blast
qed

lemma remaining_is_burst_sum:
  "remaining_is_burst h inp \<Longrightarrow>
   (\<Sum>a\<leftarrow>inp. remaining (objs h a)) = (\<Sum>a\<leftarrow>inp. burst (objs h a))"
  by (induction inp) (simp_all add: remaining_is_burst_def)

text \<open>
  With \<open>remaining\<close> equal to \<open>burst\<close>, every process completes, no earlier than its
  arrival plus its burst, and exactly then if and only if its waiting time is 0.
\<close>

lemma completion_after_burst:
  assumes "valid_input h inp" and "remaining_is_burst h inp"
  shows "\<exists>h' r. runPrioritySimulation h inp = Inr (h', r) \<and>
     (\<forall>i < length inp.
        remaining (objs h' (res_processes r ! i)) = 0 \<and>
        arrival (objs h (inp ! i)) + burst (objs h (inp ! i))
          \<le> completionTime (objs h' (res_processes r ! i)) \<and>
        (completionTime (objs h' (res_processes r ! i)) =
           arrival (objs h (inp ! i)) + burst (objs h (inp ! i)) \<longleftrightarrow>
         waitingTime (objs h' (res_processes r ! i)) = 0))"
proof -
  let ?e = "entry h inp"
  from assms have "\<forall>a \<in> set inp. 0 \<le> remaining (objs h a)"
    by (auto simp: valid_input_def remaining_is_burst_def)
  then obtain t where t: "runPrioritySimulation h inp = Inr (finish t)"
    "accounted ?e t" "\<not> some_remaining t"
    by (rule run_accounted)
  from t(2) have ps: "processes t = processes ?e" by (simp add: accounted_def static_def)
  have "remaining (objs t (processes t ! i)) = 0 \<and>
        arrival (objs h (inp ! i)) + burst (objs h (inp ! i))
          \<le> completionTime (objs t (processes t ! i)) \<and>
        (completionTime (objs t (processes t ! i)) =
           arrival (objs h (inp ! i)) + burst (objs h (inp ! i)) \<longleftrightarrow>
         waitingTime (objs t (processes t ! i)) = 0)" if i: "i < length inp" for i
  proof -
    let ?a = "processes ?e ! i"
    from i have a: "?a \<in> set (processes ?e)" by (simp add: entry_store)
    from i assms have rb: "remaining (objs h (inp ! i)) = burst (objs h (inp ! i))"
      and b: "1 \<le> burst (objs h (inp ! i))"
      by (simp_all add: valid_input_def remaining_is_burst_def)
    note ef = entry_fields [OF i, of h]
    have z: "remaining (objs t ?a) = 0" by (rule accounted_end [OF t(2,3) a])
    from t(2) a have "remaining (objs t ?a) = 0 \<and> 0 < remaining (objs ?e ?a) \<longrightarrow>
           arrival (objs ?e ?a) + remaining (objs ?e ?a) \<le> completionTime (objs t ?a) \<and>
           turnaroundTime (objs t ?a) = completionTime (objs t ?a) - arrival (objs ?e ?a) \<and>
           waitingTime (objs t ?a) = turnaroundTime (objs t ?a) - burst (objs ?e ?a)"
      unfolding accounted_def by blast
    with z b rb have "arrival (objs h (inp ! i)) + burst (objs h (inp ! i))
          \<le> completionTime (objs t ?a)"
      "waitingTime (objs t ?a) =
         completionTime (objs t ?a) - arrival (objs h (inp ! i)) - burst (objs h (inp ! i))"
      by (simp_all add: ef)
    with z show ?thesis by (auto simp: ps)
  qed
  then have "\<forall>i < length inp.
        remaining (objs (fst (finish t)) (res_processes (snd (finish t)) ! i)) = 0 \<and>
        arrival (objs h (inp ! i)) + burst (objs h (inp ! i))
          \<le> completionTime (objs (fst (finish t)) (res_processes (snd (finish t)) ! i)) \<and>
        (completionTime (objs (fst (finish t)) (res_processes (snd (finish t)) ! i)) =
           arrival (objs h (inp ! i)) + burst (objs h (inp ! i)) \<longleftrightarrow>
         waitingTime (objs (fst (finish t)) (res_processes (snd (finish t)) ! i)) = 0)"
    by (simp add: finish_fields)
  moreover have "runPrioritySimulation h inp = Inr (fst (finish t), snd (finish t))"
    by (simp add: t(1))
  ultimately show ?thesis by blast
qed

section \<open>Processes that tie\<close>

text \<open>
  Of two processes with equal priority and equal arrival, the later one in the argument
  is not selected while the earlier one has work left.
\<close>

lemma tie_not_selected:
  assumes "reachable (entry h inp) s" and "i < j" and "j < length inp"
    and "priority (objs h (inp ! i)) = priority (objs h (inp ! j))"
    and "arrival (objs h (inp ! i)) = arrival (objs h (inp ! j))"
    and "readyQueue s \<noteq> []"
    and "0 < remaining (objs s (processes s ! i))"
  shows "runningProcess s \<noteq> processes s ! j"
proof -
  note st = reachable_static [OF assms(1)]
  have ps: "processes s = [nobjs h ..< nobjs h + length inp]"
    using st by (simp add: static_def entry_store)
  have key: "sort_key (objs s (processes s ! k)) = sort_key (objs h (inp ! k))"
    if "k < length inp" for k
  proof -
    have "sort_key (objs s (nobjs h + k)) = sort_key (objs (entry h inp) (nobjs h + k))"
      using st by (simp add: static_def sort_key_def)
    with that show ?thesis by (simp add: ps entry_store sort_key_def)
  qed
  from assms(2,3) have i: "i < length inp" by simp
  show ?thesis
  proof (rule runningProcess_stable [OF _ assms(2) _ _ assms(7,6)])
    show "distinct (processes s)" by (simp add: ps)
    show "j < length (processes s)" using assms(3) by (simp add: ps)
    have "sort_key (objs h (inp ! i)) = sort_key (objs h (inp ! j))"
      using assms(4,5) by (simp add: sort_key_def)
    then show "sort_key (objs s (processes s ! i)) = sort_key (objs s (processes s ! j))"
      by (simp only: key [OF i] key [OF assms(3)])
  qed
qed

text \<open>
  Two processes \<open>a\<close> and \<open>b\<close> of which \<open>b\<close> is never selected while \<open>a\<close> has work
  left: \<open>b\<close> is untouched until \<open>a\<close> has completed, and completes later.
\<close>

definition in_order :: "sim \<Rightarrow> addr \<Rightarrow> addr \<Rightarrow> sim \<Rightarrow> bool" where
  "in_order s0 a b s \<longleftrightarrow>
     (0 < remaining (objs s a) \<longrightarrow> remaining (objs s b) = remaining (objs s0 b)) \<and>
     (remaining (objs s a) = 0 \<longrightarrow> completionTime (objs s a) \<le> currentTime s) \<and>
     (remaining (objs s b) = 0 \<longrightarrow>
        remaining (objs s a) = 0 \<and> completionTime (objs s a) < completionTime (objs s b))"

lemma idle_tick_in_order:
  assumes "in_order s0 a b s" and "idle_tick s = Inr s'"
  shows "in_order s0 a b s'"
  using assms(1) by (auto simp: in_order_def idle_tick_fields [OF assms(2)])

lemma run_tick_in_order:
  assumes "in_order s0 a b s" and "run_tick s r = Inr s'" and "a \<noteq> b"
    and "0 \<le> remaining (objs s a)" and "0 < remaining (objs s r)"
    and "0 < remaining (objs s0 a)" and "0 < remaining (objs s0 b)"
    and "0 < remaining (objs s a) \<Longrightarrow> r \<noteq> b"
  shows "in_order s0 a b s'"
proof -
  note f = run_tick_fields [OF assms(2)]
  note c = run_tick_completion [OF assms(2)]
  from assms(1) have o: "0 < remaining (objs s a) \<longrightarrow> remaining (objs s b) = remaining (objs s0 b)"
    "remaining (objs s a) = 0 \<longrightarrow> completionTime (objs s a) \<le> currentTime s"
    "remaining (objs s b) = 0 \<longrightarrow>
        remaining (objs s a) = 0 \<and> completionTime (objs s a) < completionTime (objs s b)"
    by (simp_all add: in_order_def)
  consider "r = a" | "r = b" | "r \<noteq> a" "r \<noteq> b" by blast
  then show ?thesis
  proof cases
    case 1
    with assms(3) have b: "objs s' b = objs s b" by (simp add: f(7))
    from 1 assms(5) o(1) assms(7) have nb: "remaining (objs s b) \<noteq> 0" by simp
    have "completionTime (objs s' a) \<le> currentTime s'" if "remaining (objs s' a) = 0"
    proof -
      from that 1 f(8) have "remaining (objs s a) = 1" by simp
      with c(1) 1 show ?thesis by (simp add: f(2))
    qed
    with 1 assms(5) o(1) nb show ?thesis by (auto simp: in_order_def b f(8))
  next
    case 2
    with assms(3) have a: "objs s' a = objs s a" by (simp add: f(7))
    from 2 assms(8) assms(4) have za: "remaining (objs s a) = 0" by fastforce
    with o(2) have ca: "completionTime (objs s a) \<le> currentTime s" by simp
    have "completionTime (objs s a) < completionTime (objs s' b)" if "remaining (objs s' b) = 0"
    proof -
      from that 2 f(8) have "remaining (objs s b) = 1" by simp
      with c(1) 2 have "completionTime (objs s' b) = currentTime s + 1" by simp
      with ca show ?thesis by simp
    qed
    with za ca show ?thesis by (auto simp: in_order_def a f(2))
  next
    case 3
    then have "objs s' a = objs s a" "objs s' b = objs s b" by (simp_all add: f(7))
    with o show ?thesis by (auto simp: in_order_def f(2))
  qed
qed

lemma in_order_start:
  assumes "0 < remaining (objs s0 a)" and "0 < remaining (objs s0 b)"
  shows "in_order s0 a b s0"
  using assms by (simp add: in_order_def)


lemma step_in_order:
  assumes "accounted s0 s" and "in_order s0 (processes s0 ! i) (processes s0 ! j) s"
    and "i < j" and "j < length (processes s0)"
    and "sort_key (objs s0 (processes s0 ! i)) = sort_key (objs s0 (processes s0 ! j))"
    and "0 < remaining (objs s0 (processes s0 ! i))"
    and "0 < remaining (objs s0 (processes s0 ! j))"
    and "some_remaining s" and "step s = Inr s'"
  shows "in_order s0 (processes s0 ! i) (processes s0 ! j) s'"
proof (cases "readyQueue s = []")
  case True
  with assms(9) have "idle_tick s = Inr s'" by (simp add: step_def)
  with assms(2) show ?thesis by (rule idle_tick_in_order)
next
  case False
  let ?a = "processes s0 ! i" and ?b = "processes s0 ! j"
  from assms(1) have st: "static s0 s" and d: "distinct (processes s0)"
    by (simp_all add: accounted_def)
  from st have ps: "processes s = processes s0"
    and key: "\<And>x. sort_key (objs s x) = sort_key (objs s0 x)"
    by (simp_all add: static_def sort_key_def)
  from assms(3,4) have i: "i < length (processes s0)" by simp
  from False assms(9) have r: "run_tick s (runningProcess s) = Inr s'" by (simp add: step_def)
  from runningProcess_in [OF False] have pos: "0 < remaining (objs s (runningProcess s))"
    by (simp add: readyQueue_subset)
  from d assms(3,4) i have ne: "?a \<noteq> ?b" by (simp add: nth_eq_iff_index_eq)
  from assms(1) i have nn: "0 \<le> remaining (objs s ?a)" by (simp add: accounted_def)
  have "runningProcess s \<noteq> ?b" if "0 < remaining (objs s ?a)"
    using runningProcess_stable [of s i j] d assms(3,4,5) that False by (simp add: ps key)
  with assms(2) r ne nn pos assms(6,7) show ?thesis by (rule run_tick_in_order)
qed

lemma ties_complete_in_order:
  assumes "valid_input h inp" and "remaining_is_burst h inp"
    and "i < j" and "j < length inp"
    and "priority (objs h (inp ! i)) = priority (objs h (inp ! j))"
    and "arrival (objs h (inp ! i)) = arrival (objs h (inp ! j))"
  shows "\<exists>h' r. runPrioritySimulation h inp = Inr (h', r) \<and>
     completionTime (objs h' (res_processes r ! i)) <
     completionTime (objs h' (res_processes r ! j))"
proof -
  let ?e = "entry h inp"
  let ?a = "processes ?e ! i" and ?b = "processes ?e ! j"
  from assms(3,4) have i: "i < length inp" by simp
  have len: "length (processes ?e) = length inp" by (simp add: entry_store)
  from assms(1,2) have nn: "\<forall>a \<in> set inp. 0 \<le> remaining (objs h a)"
    and pos: "\<forall>a \<in> set inp. 0 < remaining (objs h a)"
    by (auto simp: valid_input_def remaining_is_burst_def)
  have pa: "0 < remaining (objs ?e ?a)" and pb: "0 < remaining (objs ?e ?b)"
    using pos i assms(4) by (simp_all add: entry_fields)
  have key: "sort_key (objs ?e ?a) = sort_key (objs ?e ?b)"
    using assms(5,6) i assms(4) by (simp add: sort_key_def entry_store)
  define I where "I s \<longleftrightarrow> accounted ?e s \<and> in_order ?e ?a ?b s" for s
  have "accounted ?e ?e"
  proof (rule accounted_start)
    show "distinct (processes ?e)" by (simp add: entry_store)
    show "\<forall>a \<in> set (processes ?e). 0 \<le> remaining (objs ?e a)"
      using entry_all [of inp "\<lambda>r a b. 0 \<le> r" h] nn by blast
  qed (simp_all add: entry_locals)
  then have "I ?e" using in_order_start [OF pa pb] by (simp add: I_def)
  moreover have "I u'" if "I u" "some_remaining u" "step u = Inr u'" for u u'
    using that step_accounted [of ?e u u']
      step_in_order [of ?e u i j u'] assms(3,4) key pa pb
    by (simp add: I_def len)
  ultimately obtain t where t: "runPrioritySimulation h inp = Inr (finish t)" "I t"
    "\<not> some_remaining t"
    by (rule run_invariant)
  from t(2) have acc: "accounted ?e t" and ord: "in_order ?e ?a ?b t" by (simp_all add: I_def)
  from acc have ps: "processes t = processes ?e" by (simp add: accounted_def static_def)
  from assms(4) have "?b \<in> set (processes ?e)" by (simp add: len)
  from accounted_end [OF acc t(3) this] ord
  have "completionTime (objs t ?a) < completionTime (objs t ?b)" by (simp add: in_order_def)
  then have "completionTime (objs (fst (finish t)) (res_processes (snd (finish t)) ! i)) <
     completionTime (objs (fst (finish t)) (res_processes (snd (finish t)) ! j))"
    by (simp add: finish_fields ps)
  moreover have "runPrioritySimulation h inp = Inr (fst (finish t), snd (finish t))"
    by (simp add: t(1))
  ultimately show ?thesis by blast
qed

section \<open>Scenario B\<close>

text \<open>
  C1 (as amended). For P1(arrival 0, burst 8, priority 2) and P2(arrival 1, burst 4,
  priority 1) the simulation runs P1 in tick 0, P2 in ticks 1 to 4 (completion time 5),
  and P1 again from tick 5 until it completes at tick 12: the timeline is
  P1 [0,1), P2 [1,5), P1 [5,12), and the total time is 12.
\<close>

theorem scenarioB_timeline:
  "case runPrioritySimulation scenarioB [0, 1] of
     Inl e \<Rightarrow> False
   | Inr (h, r) \<Rightarrow>
       gantt r =
         [\<lparr>seg_pid = ''P1'', seg_start = 0, seg_end = 1, seg_id = Some 1\<rparr>,
          \<lparr>seg_pid = ''P2'', seg_start = 1, seg_end = 5, seg_id = Some 2\<rparr>,
          \<lparr>seg_pid = ''P1'', seg_start = 5, seg_end = 12, seg_id = Some 1\<rparr>] \<and>
       totalTime r = 12 \<and> res_idleTime r = 0 \<and>
       map (pid \<circ> objs h) (res_processes r) = [''P1'', ''P2''] \<and>
       map (completionTime \<circ> objs h) (res_processes r) = [12, 5] \<and>
       map (remaining \<circ> objs h) (res_processes r) = [0, 0]"
  by code_simp

text \<open>
  C1 as the specification states it fails: P1 does not complete at tick 13, and no
  segment ends at 13. After tick 0 P1 has 7 ticks left, which it runs in ticks 5 to 11.
\<close>

theorem scenarioB_not_13:
  "case runPrioritySimulation scenarioB [0, 1] of
     Inl e \<Rightarrow> False
   | Inr (h, r) \<Rightarrow>
       completionTime (objs h (hd (res_processes r))) \<noteq> 13 \<and>
       seg_end (last (gantt r)) \<noteq> 13 \<and> totalTime r \<noteq> 13"
  by code_simp

section \<open>Total time\<close>

text \<open>
  C2 (as amended). For every valid input in which every process has \<open>remaining\<close>
  equal to \<open>burst\<close>, the total time returned is the sum of the bursts plus the idle
  ticks, the idle ticks are at most the latest arrival, and so the total time is at most
  the sum of the bursts plus the latest arrival.
\<close>

theorem total_time_bounded:
  assumes "valid_input h inp" and "remaining_is_burst h inp"
  shows "\<exists>h' r. runPrioritySimulation h inp = Inr (h', r) \<and>
     totalTime r = (\<Sum>a\<leftarrow>inp. burst (objs h a)) + res_idleTime r \<and>
     0 \<le> res_idleTime r \<and> res_idleTime r \<le> latest_arrival h inp \<and>
     totalTime r \<le> (\<Sum>a\<leftarrow>inp. burst (objs h a)) + latest_arrival h inp"
proof -
  from assms have "\<forall>a \<in> set inp. 0 \<le> remaining (objs h a)"
    by (auto simp: valid_input_def remaining_is_burst_def)
  from total_time_split [OF this] obtain h' r where
    r: "runPrioritySimulation h inp = Inr (h', r)"
      "totalTime r = (\<Sum>a\<leftarrow>inp. remaining (objs h a)) + res_idleTime r"
      "0 \<le> res_idleTime r" "res_idleTime r \<le> latest_arrival h inp"
    by blast
  from r(2) have "totalTime r = (\<Sum>a\<leftarrow>inp. burst (objs h a)) + res_idleTime r"
    by (simp add: remaining_is_burst_sum [OF assms(2)])
  with r show ?thesis by auto
qed

theorem total_time_bounded_witness:
  "valid_input scenarioC [0] \<and> remaining_is_burst scenarioC [0] \<and>
   latest_arrival scenarioC [0] = 3 \<and> (\<Sum>a\<leftarrow>[0]. burst (objs scenarioC a)) = 2 \<and>
   (\<exists>h' r. runPrioritySimulation scenarioC [0] = Inr (h', r) \<and>
     totalTime r = (\<Sum>a\<leftarrow>[0]. burst (objs scenarioC a)) + res_idleTime r \<and>
     0 \<le> res_idleTime r \<and> res_idleTime r \<le> latest_arrival scenarioC [0] \<and>
     totalTime r \<le> (\<Sum>a\<leftarrow>[0]. burst (objs scenarioC a)) + latest_arrival scenarioC [0])"
proof -
  have v: "valid_input scenarioC [0]" by code_simp
  have f: "remaining_is_burst scenarioC [0]" by code_simp
  have l: "latest_arrival scenarioC [0] = 3" by code_simp
  have b: "(\<Sum>a\<leftarrow>[0]. burst (objs scenarioC a)) = 2" by code_simp
  from total_time_bounded [OF v f] v f l b show ?thesis by blast
qed

text \<open>
  C2 as the specification states it fails when the processor idles: in scenario C the
  only process arrives at tick 3 with a burst of 2, and the total time is 5.
\<close>

theorem scenarioC_exceeds_bursts:
  "valid_input scenarioC [0] \<and> remaining_is_burst scenarioC [0] \<and>
   (case runPrioritySimulation scenarioC [0] of
      Inl e \<Rightarrow> False
    | Inr (h, r) \<Rightarrow>
        gantt r =
          [\<lparr>seg_pid = ''IDLE'', seg_start = 0, seg_end = 3, seg_id = None\<rparr>,
           \<lparr>seg_pid = ''P1'', seg_start = 3, seg_end = 5, seg_id = Some 1\<rparr>] \<and>
        totalTime r = 5 \<and> res_idleTime r = 3 \<and>
        (\<Sum>a\<leftarrow>[0]. burst (objs scenarioC a)) = 2 \<and>
        \<not> totalTime r \<le> (\<Sum>a\<leftarrow>[0]. burst (objs scenarioC a)))"
  by code_simp

section \<open>Shape of the timeline\<close>

text \<open>
  C3 (as amended). For every input the simulation returns a result, every segment of
  the returned timeline has its start strictly before its end, the segments are contiguous
  from 0, and their ticks concatenated are exactly the ticks \<open>0, ..., totalTime - 1\<close>
  in order (so they do not overlap and leave no gap). If no process has the pid
  \<open>IDLE\<close>, no two consecutive segments have the same label.
\<close>

theorem timeline_contiguous:
  "\<exists>h' r. runPrioritySimulation h inp = Inr (h', r) \<and>
     (\<forall>g \<in> set (gantt r). seg_start g < seg_end g) \<and>
     contiguous 0 (gantt r) \<and>
     concat (map ticks (gantt r)) = [0 .. totalTime r - 1] \<and>
     (no_idle_pid h inp \<longrightarrow> distinct_adj (map seg_pid (gantt r)))"
proof -
  define I where "I s \<longleftrightarrow> timeline_inv s \<and>
    ((\<forall>a \<in> set inp. pid (objs h a) \<noteq> ''IDLE'') \<longrightarrow> label_inv s)" for s
  have "I (entry h inp)" by (simp add: I_def timeline_entry label_entry)
  moreover have "I u'" if "I u" "some_remaining u" "step u = Inr u'" for u u'
    using that by (auto simp: I_def intro: step_timeline step_label)
  ultimately obtain t where t: "runPrioritySimulation h inp = Inr (finish t)" "I t"
    by (rule run_invariant)
  from t(2) have c: "contiguous 0 (ganttChart t)"
    and l: "(\<forall>a \<in> set inp. pid (objs h a) \<noteq> ''IDLE'') \<longrightarrow>
        distinct_adj (map seg_pid (ganttChart t))"
    by (simp_all add: I_def timeline_inv_def label_inv_def)
  have "runPrioritySimulation h inp = Inr (fst (finish t), snd (finish t))"
    by (simp add: t(1))
  moreover have "\<forall>g \<in> set (gantt (snd (finish t))). seg_start g < seg_end g"
    using contiguous_nonempty [OF c] by (simp add: finish_fields)
  moreover have "contiguous 0 (gantt (snd (finish t)))"
    using c by (simp add: finish_fields)
  moreover have "concat (map ticks (gantt (snd (finish t)))) =
      [0 .. totalTime (snd (finish t)) - 1]"
    using contiguous_ticks [OF c] by (simp add: finish_fields(6) totalTime_finish)
  moreover have "(\<forall>a \<in> set inp. pid (objs h a) \<noteq> ''IDLE'') \<longrightarrow>
        distinct_adj (map seg_pid (gantt (snd (finish t))))"
    using l by (simp add: finish_fields)
  ultimately show ?thesis unfolding no_idle_pid_def by blast
qed

theorem timeline_contiguous_witness:
  "no_idle_pid scenarioB [0, 1] \<and>
   (\<exists>h' r. runPrioritySimulation scenarioB [0, 1] = Inr (h', r) \<and>
     (\<forall>g \<in> set (gantt r). seg_start g < seg_end g) \<and>
     contiguous 0 (gantt r) \<and>
     concat (map ticks (gantt r)) = [0 .. totalTime r - 1] \<and>
     distinct_adj (map seg_pid (gantt r)))"
proof -
  have p: "no_idle_pid scenarioB [0, 1]"
    by (simp add: no_idle_pid_def scenarioB_def store_of_def new_process_def)
  from p timeline_contiguous [of scenarioB "[0, 1]"] show ?thesis by blast
qed

text \<open>
  C3 as the specification states it fails for a process whose pid is \<open>IDLE\<close>, the
  label of the idle segments: the process below arrives at tick 1, so the timeline is
  an idle segment followed by the segment of the process, both labelled \<open>IDLE\<close>.
\<close>

theorem idle_label_twice:
  "case runPrioritySimulation idleNamed [0] of
     Inl e \<Rightarrow> False
   | Inr (h, r) \<Rightarrow>
       gantt r =
         [\<lparr>seg_pid = ''IDLE'', seg_start = 0, seg_end = 1, seg_id = None\<rparr>,
          \<lparr>seg_pid = ''IDLE'', seg_start = 1, seg_end = 2, seg_id = Some 1\<rparr>] \<and>
       \<not> distinct_adj (map seg_pid (gantt r)) \<and> valid_input idleNamed [0]"
  by code_simp

section \<open>A burst edited in the form: the total time\<close>

text \<open>
  C4 (the sum of the bursts plus the idle ticks is the total time), at an input the
  application produces. After the burst of P1 is changed from 8 to 3 in the form, the
  process list holds \<open>burst = 3\<close> and \<open>remaining = 8\<close> for P1:
  \<open>handleProcessChange\<close> writes the one field, and the simulation counts down the
  \<open>remaining\<close> it is given. It runs P1 for 8 ticks: the total time is 21 with no idle
  tick, while the bursts add up to 16. With \<open>remaining\<close> equal to \<open>burst\<close> the sum of
  the bursts plus the idle ticks is the total time (\<open>total_time_split\<close> above).
\<close>

theorem edited_burst_total:
  "map (\<lambda>p. (arrival p, burst p, priority p, remaining p))
      (handleProcessChange initialProcesses 0 Burst 3) =
     [(0, 3, 2, 8), (1, 4, 1, 4), (2, 9, 4, 9)] \<and>
   (case runPrioritySimulation (store_of (handleProcessChange initialProcesses 0 Burst 3))
           [0, 1, 2] of
      Inl e \<Rightarrow> False
    | Inr (h, r) \<Rightarrow>
        totalTime r = 21 \<and> res_idleTime r = 0 \<and>
        (\<Sum>a\<leftarrow>res_processes r. burst (objs h a)) = 16 \<and>
        (\<Sum>a\<leftarrow>res_processes r. burst (objs h a)) + res_idleTime r \<noteq> totalTime r)"
  by code_simp

section \<open>Priority and preemption\<close>

text \<open>
  C5. In every state of the loop in which the ready queue is not empty (so at every
  tick at which a process is selected), the selected process is in the ready queue and
  no process of the ready queue has a strictly smaller priority value. A process of the
  ready queue whose priority value is strictly smaller than that of every other ready
  process is the one selected, whichever process ran in the tick before: there is no
  minimum quantum. The selected process is the one that runs in this tick, for exactly
  this tick.
\<close>

theorem highest_priority_runs:
  assumes "readyQueue s \<noteq> []"
  shows "runningProcess s \<in> set (readyQueue s) \<and>
     (\<forall>a \<in> set (readyQueue s). priority (objs s (runningProcess s)) \<le> priority (objs s a)) \<and>
     (\<forall>a \<in> set (readyQueue s).
        (\<forall>b \<in> set (readyQueue s). b \<noteq> a \<longrightarrow> priority (objs s a) < priority (objs s b)) \<longrightarrow>
        runningProcess s = a) \<and>
     step s = run_tick s (runningProcess s) \<and>
     (\<forall>s'. step s = Inr s' \<longrightarrow>
        remaining (objs s' (runningProcess s)) = remaining (objs s (runningProcess s)) - 1 \<and>
        currentTime s' = currentTime s + 1)"
proof -
  let ?r = "runningProcess s"
  have r: "?r \<in> set (readyQueue s)" using assms by (rule runningProcess_in)
  have least: "\<forall>a \<in> set (readyQueue s). priority (objs s ?r) \<le> priority (objs s a)"
    using runningProcess_least [OF assms] by (auto simp: key_le_def sort_key_def)
  have "?r = a" if "a \<in> set (readyQueue s)"
    and "\<forall>b \<in> set (readyQueue s). b \<noteq> a \<longrightarrow> priority (objs s a) < priority (objs s b)" for a
  proof (rule ccontr)
    assume "?r \<noteq> a"
    with that(2) r have "priority (objs s a) < priority (objs s ?r)" by simp
    with least that(1) show False by fastforce
  qed
  moreover have st: "step s = run_tick s ?r" using assms by (simp add: step_def)
  moreover have "remaining (objs s' ?r) = remaining (objs s ?r) - 1 \<and>
      currentTime s' = currentTime s + 1" if "step s = Inr s'" for s'
    using that st run_tick_fields(2,8) [of s ?r s'] by simp
  ultimately show ?thesis using r least by blast
qed

theorem highest_priority_runs_witness:
  "readyQueue preempt_state \<noteq> [] \<and>
   lastProcessId preempt_state = Some ''P1'' \<and>
   map (pid \<circ> objs preempt_state) (readyQueue preempt_state) = [''P1'', ''P2''] \<and>
   map (priority \<circ> objs preempt_state) (readyQueue preempt_state) = [2, 1] \<and>
   pid (objs preempt_state (runningProcess preempt_state)) = ''P2'' \<and>
   priority (objs preempt_state (runningProcess preempt_state)) \<le>
     priority (objs preempt_state (hd (readyQueue preempt_state)))"
proof -
  have ne: "readyQueue preempt_state \<noteq> []" by code_simp
  have hd: "hd (readyQueue preempt_state) \<in> set (readyQueue preempt_state)"
    using ne by simp
  from highest_priority_runs [OF ne] hd
  have "priority (objs preempt_state (runningProcess preempt_state)) \<le>
     priority (objs preempt_state (hd (readyQueue preempt_state)))" by blast
  moreover have "lastProcessId preempt_state = Some ''P1''" by code_simp
  moreover have "map (pid \<circ> objs preempt_state) (readyQueue preempt_state) = [''P1'', ''P2'']"
    by code_simp
  moreover have "map (priority \<circ> objs preempt_state) (readyQueue preempt_state) = [2, 1]"
    by code_simp
  moreover have "pid (objs preempt_state (runningProcess preempt_state)) = ''P2''"
    by code_simp
  ultimately show ?thesis using ne by simp
qed

section \<open>Ties\<close>

text \<open>
  C6. Take two processes of the argument with equal priority and equal arrival, at
  positions \<open>i < j\<close>. In every state the loop of the run goes through, as long as the
  copy of the \<open>i\<close>-th has work left, the copy of the \<open>j\<close>-th is not selected: the
  two are scheduled in the order of the argument. For a valid input with \<open>remaining\<close>
  equal to \<open>burst\<close>, the \<open>i\<close>-th therefore completes strictly before the \<open>j\<close>-th.
  (The simulation is a function of its argument, so every run gives the same order.)
\<close>

theorem ties_in_input_order:
  assumes "i < j" and "j < length inp"
    and "priority (objs h (inp ! i)) = priority (objs h (inp ! j))"
    and "arrival (objs h (inp ! i)) = arrival (objs h (inp ! j))"
  shows "(\<forall>s. reachable (entry h inp) s \<and> readyQueue s \<noteq> [] \<and>
              0 < remaining (objs s (processes s ! i)) \<longrightarrow>
              runningProcess s \<noteq> processes s ! j) \<and>
         (valid_input h inp \<and> remaining_is_burst h inp \<longrightarrow>
            (\<exists>h' r. runPrioritySimulation h inp = Inr (h', r) \<and>
               completionTime (objs h' (res_processes r ! i)) <
               completionTime (objs h' (res_processes r ! j))))"
  using tie_not_selected [OF _ assms] ties_complete_in_order [OF _ _ assms] by blast

theorem ties_in_input_order_witness:
  "reachable (entry tied [0, 1]) tied_state \<and>
   readyQueue tied_state = processes tied_state \<and>
   remaining (objs tied_state (processes tied_state ! 0)) = 1 \<and>
   runningProcess tied_state = processes tied_state ! 0 \<and>
   runningProcess tied_state \<noteq> processes tied_state ! 1 \<and>
   valid_input tied [0, 1] \<and> remaining_is_burst tied [0, 1] \<and>
   (\<exists>h' r. runPrioritySimulation tied [0, 1] = Inr (h', r) \<and>
      completionTime (objs h' (res_processes r ! 0)) <
      completionTime (objs h' (res_processes r ! 1)))"
proof -
  have sr: "some_remaining (entry tied [0, 1])" by code_simp
  obtain s' where s': "step (entry tied [0, 1]) = Inr s'"
    using step_no_throw [OF no_throw_entry] by blast
  then have ts: "step (entry tied [0, 1]) = Inr tied_state" by (simp add: tied_state_def)
  have re: "reachable (entry tied [0, 1]) tied_state"
    by (rule reachable.tick [OF reachable.start sr ts])
  have p: "priority (objs tied ([0, 1] ! 0)) = priority (objs tied ([0, 1] ! 1))"
    and a: "arrival (objs tied ([0, 1] ! 0)) = arrival (objs tied ([0, 1] ! 1))"
    by (simp_all add: tied_def store_of_def new_process_def)
  have rq: "readyQueue tied_state = processes tied_state" by code_simp
  have ps: "processes tied_state = [2, 3]" by code_simp
  have ne: "readyQueue tied_state \<noteq> []" by (simp add: rq ps)
  have rem: "remaining (objs tied_state (processes tied_state ! 0)) = 1" by code_simp
  then have pos: "0 < remaining (objs tied_state (processes tied_state ! 0))" by simp
  have run: "runningProcess tied_state = processes tied_state ! 0" by code_simp
  have v: "valid_input tied [0, 1]" by code_simp
  have f: "remaining_is_burst tied [0, 1]" by code_simp
  have ij: "(0::nat) < 1" "1 < length [0::nat, 1]" by simp_all
  note both = ties_in_input_order [OF ij p a]
  from both re ne pos have "runningProcess tied_state \<noteq> processes tied_state ! 1" by blast
  moreover from both v f have "\<exists>h' r. runPrioritySimulation tied [0, 1] = Inr (h', r) \<and>
      completionTime (objs h' (res_processes r ! 0)) <
      completionTime (objs h' (res_processes r ! 1))" by blast
  ultimately show ?thesis using re rq rem run v f by blast
qed

section \<open>A burst edited in the form: the completion time\<close>

text \<open>
  C7 (a process completes no earlier than its arrival plus its burst), at an input the
  application produces. After the burst of P1 is changed from 8 to 20 in the form, P1
  still runs for 8 ticks and completes at tick 12, before its arrival plus its burst;
  its waiting time is \<open>-8\<close>. With \<open>remaining\<close> equal to \<open>burst\<close> every process
  completes no earlier than its arrival plus its burst, and exactly then if and only if
  its waiting time is 0 (\<open>completion_after_burst\<close> above).
\<close>

theorem edited_burst_completion:
  "map (\<lambda>p. (arrival p, burst p, priority p, remaining p))
      (handleProcessChange initialProcesses 0 Burst 20) =
     [(0, 20, 2, 8), (1, 4, 1, 4), (2, 9, 4, 9)] \<and>
   (case runPrioritySimulation (store_of (handleProcessChange initialProcesses 0 Burst 20))
           [0, 1, 2] of
      Inl e \<Rightarrow> False
    | Inr (h, r) \<Rightarrow>
        map (\<lambda>a. (arrival (objs h a), burst (objs h a), completionTime (objs h a),
                   waitingTime (objs h a))) (res_processes r) =
          [(0, 20, 12, - 8), (1, 4, 5, 0), (2, 9, 21, 10)] \<and>
        completionTime (objs h (hd (res_processes r))) <
          arrival (objs h (hd (res_processes r))) + burst (objs h (hd (res_processes r))))"
  by code_simp

section \<open>CPU utilisation\<close>

text \<open>
  C8. \<open>cpuUtil\<close> is \<open>(totalTime - idleTime) / totalTime * 100\<close> when
  \<open>totalTime\<close> is positive and 0 when it is 0, so that no division by zero takes
  place. For the empty list the simulation returns \<open>totalTime = 0\<close>, an empty
  timeline and no idle ticks, and the utilisation computed from them is 0.
\<close>

theorem cpuUtil_guarded:
  "(0 < tt \<longrightarrow> cpuUtil dv ml tt idle = ml (dv (tt - idle) tt) 100) \<and>
   (tt = 0 \<longrightarrow> cpuUtil dv ml tt idle = 0) \<and>
   (\<exists>h' r. runPrioritySimulation h [] = Inr (h', r) \<and>
      totalTime r = 0 \<and> gantt r = [] \<and> res_idleTime r = 0 \<and>
      cpuUtil dv ml (totalTime r) (res_idleTime r) = 0)"
  by (simp add: cpuUtil_def run_empty)

theorem cpuUtil_guarded_witness:
  "cpuUtil (\<lambda>a b. real_of_int a / real_of_int b) (*) 5 3 = 40 \<and>
   cpuUtil (\<lambda>a b. real_of_int a / real_of_int b) (*) 0 0 = 0 \<and>
   (\<exists>h' r. runPrioritySimulation scenarioB [] = Inr (h', r) \<and>
      totalTime r = 0 \<and> gantt r = [] \<and> res_idleTime r = 0 \<and>
      cpuUtil (\<lambda>a b. real_of_int a / real_of_int b) (*) (totalTime r) (res_idleTime r) = 0)"
  using cpuUtil_guarded [of 5 "\<lambda>a b. real_of_int a / real_of_int b" "(*)" 3 scenarioB]
    cpuUtil_guarded [of 0 "\<lambda>a b. real_of_int a / real_of_int b" "(*)" 0 scenarioB]
  by simp

section \<open>The caller's objects\<close>

text \<open>
  C9. The simulation does not mutate its caller's input: when \<open>runPrioritySimulation\<close>
  returns, every process object of the argument list is what it was before the call,
  field by field, and so are the contents of its \<open>startTimes\<close> array. In fact no
  object that existed before the call has changed: every write of the loop goes to an
  object that \<open>JSON.parse\<close> created.
\<close>

theorem input_not_mutated:
  assumes "wf_input h inp"
  shows "\<exists>h' r. runPrioritySimulation h inp = Inr (h', r) \<and>
           (\<forall>a \<in> set inp. objs h' a = objs h a \<and>
              arrs h' (startTimes (objs h' a)) = arrs h (startTimes (objs h a))) \<and>
           (\<forall>a < nobjs h. objs h' a = objs h a) \<and>
           (\<forall>x < narrs h. arrs h' x = arrs h x)"
proof -
  obtain t where t: "runPrioritySimulation h inp = Inr (finish t)"
    "static (entry h inp) t" by (rule run_returns)
  note keep = old_store_kept [OF t(2)]
  have "runPrioritySimulation h inp = Inr (fst (finish t), snd (finish t))"
    by (simp add: t(1))
  moreover have "\<forall>a < nobjs h. objs (fst (finish t)) a = objs h a"
    by (simp add: finish_fields keep)
  moreover have "\<forall>x < narrs h. arrs (fst (finish t)) x = arrs h x"
    by (simp add: finish_fields keep)
  moreover have "\<forall>a \<in> set inp. objs (fst (finish t)) a = objs h a \<and>
      arrs (fst (finish t)) (startTimes (objs (fst (finish t)) a)) =
      arrs h (startTimes (objs h a))"
    using assms by (simp add: finish_fields keep wf_input_def)
  ultimately show ?thesis by blast
qed

theorem input_not_mutated_witness:
  "wf_input scenarioB [0, 1] \<and>
   (\<exists>h' r. runPrioritySimulation scenarioB [0, 1] = Inr (h', r) \<and>
      (\<forall>a \<in> set [0, 1]. objs h' a = objs scenarioB a \<and>
         arrs h' (startTimes (objs h' a)) = arrs scenarioB (startTimes (objs scenarioB a))) \<and>
      (\<forall>a < nobjs scenarioB. objs h' a = objs scenarioB a) \<and>
      (\<forall>x < narrs scenarioB. arrs h' x = arrs scenarioB x))"
proof -
  have wf: "wf_input scenarioB [0, 1]"
    by (simp add: wf_input_def scenarioB_def store_of_def)
  from wf input_not_mutated [OF wf] show ?thesis by blast
qed

section \<open>The returned processes\<close>

text \<open>
  C10. The list of processes returned has the length and the order of the argument:
  its \<open>i\<close>-th object has the \<open>id\<close>, \<open>pid\<close>, \<open>arrival\<close>, \<open>burst\<close> and
  \<open>priority\<close> of the \<open>i\<close>-th object of the argument. (The other fields are the
  ones the loop writes.)
\<close>

theorem returned_processes_frame:
  "\<exists>h' r. runPrioritySimulation h inp = Inr (h', r) \<and>
     length (res_processes r) = length inp \<and>
     (\<forall>i < length inp.
        proc_id (objs h' (res_processes r ! i)) = proc_id (objs h (inp ! i)) \<and>
        pid (objs h' (res_processes r ! i)) = pid (objs h (inp ! i)) \<and>
        arrival (objs h' (res_processes r ! i)) = arrival (objs h (inp ! i)) \<and>
        burst (objs h' (res_processes r ! i)) = burst (objs h (inp ! i)) \<and>
        priority (objs h' (res_processes r ! i)) = priority (objs h (inp ! i)))"
proof -
  obtain t where t: "runPrioritySimulation h inp = Inr (finish t)"
    "static (entry h inp) t" by (rule run_returns)
  have ps: "processes t = [nobjs h ..< nobjs h + length inp]"
    using t(2) by (simp add: static_def entry_store)
  have "runPrioritySimulation h inp = Inr (fst (finish t), snd (finish t))"
    by (simp add: t(1))
  moreover have "length (res_processes (snd (finish t))) = length inp"
    by (simp add: finish_fields ps)
  moreover have "\<forall>i < length inp.
        proc_id (objs (fst (finish t)) (res_processes (snd (finish t)) ! i)) = proc_id (objs h (inp ! i)) \<and>
        pid (objs (fst (finish t)) (res_processes (snd (finish t)) ! i)) = pid (objs h (inp ! i)) \<and>
        arrival (objs (fst (finish t)) (res_processes (snd (finish t)) ! i)) = arrival (objs h (inp ! i)) \<and>
        burst (objs (fst (finish t)) (res_processes (snd (finish t)) ! i)) = burst (objs h (inp ! i)) \<and>
        priority (objs (fst (finish t)) (res_processes (snd (finish t)) ! i)) = priority (objs h (inp ! i))"
  proof (intro allI impI)
    fix i assume i: "i < length inp"
    have st: "proc_id (objs t a) = proc_id (objs (entry h inp) a)"
      "pid (objs t a) = pid (objs (entry h inp) a)"
      "arrival (objs t a) = arrival (objs (entry h inp) a)"
      "burst (objs t a) = burst (objs (entry h inp) a)"
      "priority (objs t a) = priority (objs (entry h inp) a)" for a
      using t(2) by (simp_all add: static_def)
    from i show "proc_id (objs (fst (finish t)) (res_processes (snd (finish t)) ! i)) = proc_id (objs h (inp ! i)) \<and>
        pid (objs (fst (finish t)) (res_processes (snd (finish t)) ! i)) = pid (objs h (inp ! i)) \<and>
        arrival (objs (fst (finish t)) (res_processes (snd (finish t)) ! i)) = arrival (objs h (inp ! i)) \<and>
        burst (objs (fst (finish t)) (res_processes (snd (finish t)) ! i)) = burst (objs h (inp ! i)) \<and>
        priority (objs (fst (finish t)) (res_processes (snd (finish t)) ! i)) = priority (objs h (inp ! i))"
      by (simp add: finish_fields ps st entry_store)
  qed
  ultimately show ?thesis by blast
qed

theorem returned_processes_frame_witness:
  "\<exists>h' r. runPrioritySimulation scenarioB [0, 1] = Inr (h', r) \<and>
     length (res_processes r) = length [0 :: nat, 1] \<and>
     (\<forall>i < length [0 :: nat, 1].
        proc_id (objs h' (res_processes r ! i)) = proc_id (objs scenarioB ([0, 1] ! i)) \<and>
        pid (objs h' (res_processes r ! i)) = pid (objs scenarioB ([0, 1] ! i)) \<and>
        arrival (objs h' (res_processes r ! i)) = arrival (objs scenarioB ([0, 1] ! i)) \<and>
        burst (objs h' (res_processes r ! i)) = burst (objs scenarioB ([0, 1] ! i)) \<and>
        priority (objs h' (res_processes r ! i)) = priority (objs scenarioB ([0, 1] ! i)))"
  by (rule returned_processes_frame)

end
